theory Spec2Isabelle
  imports Main "HOL-Library.Code_Target_Nat"
begin

section \<open>Strings\<close>

text \<open>
  A JavaScript string is a sequence of UTF-16 code units. The code below compares single
  code units with ASCII characters and with U+200B, so a string is modelled as the list of
  its code units. \<open>str\<close> turns a literal into that list.
\<close>

type_synonym jsstring = "nat list"

definition str :: "string \<Rightarrow> jsstring" where
  "str = map of_char"

text \<open>
  \<open>String.prototype.trim\<close> removes the code units of the ECMAScript productions
  WhiteSpace and LineTerminator from both ends; the regular expression class \<open>\s\<close>
  matches the same set.
\<close>

definition isJsSpace :: "nat \<Rightarrow> bool" where
  "isJsSpace c \<longleftrightarrow>
     c = 9 \<or> c = 10 \<or> c = 11 \<or> c = 12 \<or> c = 13 \<or> c = 32 \<or> c = 160 \<or> c = 5760 \<or>
     (8192 \<le> c \<and> c \<le> 8202) \<or> c = 8232 \<or> c = 8233 \<or> c = 8239 \<or> c = 8287 \<or>
     c = 12288 \<or> c = 65279"

definition trimStart :: "jsstring \<Rightarrow> jsstring" where
  "trimStart s = dropWhile isJsSpace s"

definition trimEnd :: "jsstring \<Rightarrow> jsstring" where
  "trimEnd s = rev (dropWhile isJsSpace (rev s))"

definition trim :: "jsstring \<Rightarrow> jsstring" where
  "trim s = trimEnd (trimStart s)"


text \<open>A single code unit, written as a character.\<close>

abbreviation (input) cu :: "char \<Rightarrow> nat" where
  "cu c \<equiv> of_char c"

definition startsWith :: "jsstring \<Rightarrow> jsstring \<Rightarrow> bool" where
  "startsWith s p \<longleftrightarrow> take (length p) s = p"

definition endsWith :: "jsstring \<Rightarrow> jsstring \<Rightarrow> bool" where
  "endsWith s p \<longleftrightarrow> length p \<le> length s \<and> drop (length s - length p) s = p"

text \<open>
  \<open>s.indexOf(needle)\<close>: the position of the first occurrence, \<open>None\<close> for \<open>-1\<close>.
  \<open>indexOfFrom\<close> is \<open>s.indexOf(needle, start)\<close>.
\<close>

fun indexOf :: "jsstring \<Rightarrow> jsstring \<Rightarrow> nat option" where
  "indexOf [] needle = (if needle = [] then Some 0 else None)"
| "indexOf (c # cs) needle =
     (if take (length needle) (c # cs) = needle then Some 0
      else map_option Suc (indexOf cs needle))"

definition indexOfFrom :: "jsstring \<Rightarrow> jsstring \<Rightarrow> nat \<Rightarrow> nat option" where
  "indexOfFrom s needle start =
     map_option (\<lambda>i. i + min start (length s)) (indexOf (drop start s) needle)"

text \<open>\<open>parts.join(sep)\<close>.\<close>

fun join :: "jsstring \<Rightarrow> jsstring list \<Rightarrow> jsstring" where
  "join sep [] = []"
| "join sep [x] = x"
| "join sep (x # y # ys) = x @ sep @ join sep (y # ys)"


section \<open>The fence parser (SegmentParser)\<close>

definition FENCE :: jsstring where
  "FENCE = str ''```''"

definition MAX_TAIL :: nat where
  "MAX_TAIL = length FENCE - 1"

text \<open>
  A token stream made by \<open>createTokenStream\<close> is named by a number, in the order of
  creation. A segment carries its block index (code and data), its streamed-data
  identifier (data) and its token stream.
\<close>

datatype ParserSegment =
    MarkdownSegment nat
  | AgentRunSegment nat nat
  | AgentDataSegment nat jsstring nat

text \<open>
  What the parser does to the outside, in program order: it yields a segment, or it calls
  \<open>push\<close> or \<open>close\<close> of a token stream.
\<close>

datatype parser_event = Yield ParserSegment | Push nat jsstring | Close nat

datatype BlockInfo = agent_run_info jsstring | agent_data_info jsstring

text \<open>
  The active block: for \<open>agent_run\<close> its index, stream, header source and
  \<open>lastNonWhitespaceChar\<close>; for the other two kinds the stream.
\<close>

datatype ActiveBlock =
    agent_run_block nat nat jsstring "nat option"
  | agent_data_block nat
  | passthrough_block nat

record SegmentParser =
  buffer :: jsstring
  blockIndex :: nat
  markdownStream :: "nat option"
  activeBlock :: "ActiveBlock option"
  streams_created :: nat

definition new_parser :: SegmentParser where
  "new_parser =
     \<lparr>buffer = [], blockIndex = 0, markdownStream = None, activeBlock = None,
      streams_created = 0\<rparr>"

definition append_text :: "jsstring \<Rightarrow> SegmentParser \<Rightarrow> SegmentParser" where
  "append_text text p = (if text = [] then p else p\<lparr>buffer := buffer p @ text\<rparr>)"

subsection \<open>Helper functions\<close>

text \<open>\<open>header.toLowerCase() === 'tsx agent.run'\<close>. No character outside ASCII has a
  lower case that is a character of this literal, so it is enough to lower the ASCII
  capitals.\<close>

definition lowerAscii :: "nat \<Rightarrow> nat" where
  "lowerAscii c = (if cu CHR ''A'' \<le> c \<and> c \<le> cu CHR ''Z'' then c + 32 else c)"

definition isAgentRunHeader :: "jsstring \<Rightarrow> bool" where
  "isAgentRunHeader header \<longleftrightarrow> map lowerAscii header = str ''tsx agent.run''"

definition isQuote :: "nat \<Rightarrow> bool" where
  "isQuote c \<longleftrightarrow> c = 34 \<or> c = 39"

definition startsWithIgnoreCase :: "jsstring \<Rightarrow> jsstring \<Rightarrow> bool" where
  "startsWithIgnoreCase s p \<longleftrightarrow> map lowerAscii (take (length p) s) = p"

text \<open>
  \<open>matchAgentDataHeader\<close>: the first group of
  \<open>/^json\s+agent\.data\s*=>\s*["']([^"']+)["']$/i\<close>. Without the \<open>u\<close> flag the
  \<open>i\<close> flag folds the case of ASCII letters only against the letters of the pattern.
\<close>

definition matchAgentDataHeader :: "jsstring \<Rightarrow> jsstring option" where
  "matchAgentDataHeader header =
     (if \<not> startsWithIgnoreCase header (str ''json'') then None
      else
        let r1 = drop (length (str ''json'')) header;
            r2 = dropWhile isJsSpace r1
        in if takeWhile isJsSpace r1 = [] \<or> \<not> startsWithIgnoreCase r2 (str ''agent.data'')
           then None
           else
             let r3 = dropWhile isJsSpace (drop (length (str ''agent.data'')) r2)
             in if \<not> startsWith r3 (str ''=>'') then None
                else
                  (case dropWhile isJsSpace (drop (length (str ''=>'')) r3) of
                     [] \<Rightarrow> None
                   | q # r4 \<Rightarrow>
                       let matched = takeWhile (\<lambda>c. \<not> isQuote c) r4;
                           closing = dropWhile (\<lambda>c. \<not> isQuote c) r4
                       in if isQuote q \<and> matched \<noteq> [] \<and> length closing = 1
                          then Some matched else None))"

definition stripCarriageReturn :: "jsstring \<Rightarrow> jsstring" where
  "stripCarriageReturn v = (if endsWith v [13] then butlast v else v)"

text \<open>\<open>countTrailingBackticks\<close>: the loop runs from the end of the string.\<close>

fun countTrailingBackticks_loop :: "jsstring \<Rightarrow> nat \<Rightarrow> nat" where
  "countTrailingBackticks_loop [] count = count"
| "countTrailingBackticks_loop (c # earlier) count =
     (if count < MAX_TAIL
      then (if c = cu CHR 0x60 then countTrailingBackticks_loop earlier (count + 1) else count)
      else count)"

definition countTrailingBackticks :: "jsstring \<Rightarrow> nat" where
  "countTrailingBackticks v = countTrailingBackticks_loop (rev v) 0"

text \<open>
  \<open>updateLastNonWhitespace\<close>: the last character of the chunk that is not a space, a tab,
  a line feed or a carriage return replaces the stored one; a chunk of white space keeps
  it.
\<close>

definition isCodeSpace :: "nat \<Rightarrow> bool" where
  "isCodeSpace c \<longleftrightarrow> c = 32 \<or> c = 9 \<or> c = 10 \<or> c = 13"

fun updateLastNonWhitespace_loop :: "jsstring \<Rightarrow> nat option \<Rightarrow> nat option" where
  "updateLastNonWhitespace_loop [] previous = previous"
| "updateLastNonWhitespace_loop (c # earlier) previous =
     (if \<not> isCodeSpace c then Some c else updateLastNonWhitespace_loop earlier previous)"

definition updateLastNonWhitespace :: "nat option \<Rightarrow> jsstring \<Rightarrow> nat option" where
  "updateLastNonWhitespace previous chunk = updateLastNonWhitespace_loop (rev chunk) previous"

text \<open>\<open>isWhitespaceOnly\<close> also takes the zero-width space U+200B for white space.\<close>

definition isProseSpace :: "nat \<Rightarrow> bool" where
  "isProseSpace c \<longleftrightarrow> c = 32 \<or> c = 9 \<or> c = 10 \<or> c = 13 \<or> c = 8203"

fun isWhitespaceOnly :: "jsstring \<Rightarrow> bool" where
  "isWhitespaceOnly [] = True"
| "isWhitespaceOnly (c # cs) = (if \<not> isProseSpace c then False else isWhitespaceOnly cs)"

subsection \<open>The markdown stream\<close>

definition ensureMarkdownStream ::
  "SegmentParser \<Rightarrow> nat \<times> parser_event list \<times> SegmentParser"
where
  "ensureMarkdownStream p =
     (case markdownStream p of
        Some stream \<Rightarrow> (stream, [], p)
      | None \<Rightarrow>
          (let stream = streams_created p
           in (stream, [Yield (MarkdownSegment stream)],
               p\<lparr>markdownStream := Some stream, streams_created := stream + 1\<rparr>)))"

definition closeMarkdownStream :: "SegmentParser \<Rightarrow> parser_event list \<times> SegmentParser" where
  "closeMarkdownStream p =
     (case markdownStream p of
        None \<Rightarrow> ([], p)
      | Some stream \<Rightarrow> ([Close stream], p\<lparr>markdownStream := None\<rparr>))"

definition pushMarkdown :: "jsstring \<Rightarrow> SegmentParser \<Rightarrow> parser_event list \<times> SegmentParser" where
  "pushMarkdown text p =
     (if text = [] then ([], p)
      else if markdownStream p = None \<and> isWhitespaceOnly text then ([], p)
      else
        (case ensureMarkdownStream p of
           (stream, yielded, p1) \<Rightarrow> (yielded @ [Push stream text], p1)))"

definition flushMarkdown :: "bool \<Rightarrow> SegmentParser \<Rightarrow> parser_event list \<times> SegmentParser" where
  "flushMarkdown final p =
     (if buffer p = [] then (if final then closeMarkdownStream p else ([], p))
      else
        let keep = (if final then 0 else min (countTrailingBackticks (buffer p)) MAX_TAIL);
            emitLength = length (buffer p) - keep;
            (e1, p1) =
              (if emitLength > 0
               then pushMarkdown (take emitLength (buffer p))
                      (p\<lparr>buffer := drop emitLength (buffer p)\<rparr>)
               else ([], p))
        in if final then
             (let (e2, p2) =
                    (if length (buffer p1) > 0
                     then (case pushMarkdown (buffer p1) p1 of
                             (e, q) \<Rightarrow> (e, q\<lparr>buffer := []\<rparr>))
                     else ([], p1));
                  (e3, p3) = closeMarkdownStream p2
              in (e1 @ e2 @ e3, p3))
           else (e1, p1))"

subsection \<open>Blocks\<close>

definition parseHeader :: "jsstring \<Rightarrow> jsstring \<Rightarrow> BlockInfo option" where
  "parseHeader header rawHeader =
     (if isAgentRunHeader header then Some (agent_run_info (FENCE @ rawHeader @ [10]))
      else (case matchAgentDataHeader header of
              Some dataMatch \<Rightarrow> Some (agent_data_info dataMatch)
            | None \<Rightarrow> None))"

definition openBlock :: "BlockInfo \<Rightarrow> SegmentParser \<Rightarrow> ParserSegment \<times> SegmentParser" where
  "openBlock blockInfo p =
     (let stream = streams_created p; index = blockIndex p
      in case blockInfo of
           agent_run_info headerSource \<Rightarrow>
             (AgentRunSegment index stream,
              p\<lparr>blockIndex := index + 1, streams_created := stream + 1,
                activeBlock := Some (agent_run_block index stream headerSource None)\<rparr>)
         | agent_data_info streamedDataId \<Rightarrow>
             (AgentDataSegment index streamedDataId stream,
              p\<lparr>blockIndex := index + 1, streams_created := stream + 1,
                activeBlock := Some (agent_data_block stream)\<rparr>))"

text \<open>
  \<open>closeAgentRunBlock\<close>: a semicolon is pushed when a last non-white-space character is
  stored and it is not a semicolon.
\<close>

definition closeAgentRunBlock ::
  "nat \<Rightarrow> nat option \<Rightarrow> SegmentParser \<Rightarrow> parser_event list \<times> SegmentParser"
where
  "closeAgentRunBlock stream lastNonWs p =
     ((case lastNonWs of
         None \<Rightarrow> []
       | Some c \<Rightarrow> if c = cu CHR '';'' then [] else [Push stream (str '';'')]) @ [Close stream],
      p\<lparr>activeBlock := None\<rparr>)"

definition consumeAgentRunBlock ::
  "nat \<Rightarrow> nat \<Rightarrow> jsstring \<Rightarrow> nat option \<Rightarrow> bool \<Rightarrow> SegmentParser \<Rightarrow>
   parser_event list \<times> SegmentParser \<times> bool"
where
  "consumeAgentRunBlock index stream headerSource lastNonWs final p =
     (case indexOf (buffer p) FENCE of
        None \<Rightarrow>
          (let emitLength = (if final then length (buffer p) else length (buffer p) - MAX_TAIL);
               chunk = take emitLength (buffer p);
               (e1, last1, p1) =
                 (if emitLength > 0
                  then ([Push stream chunk], updateLastNonWhitespace lastNonWs chunk,
                        p\<lparr>buffer := drop emitLength (buffer p)\<rparr>)
                  else ([], lastNonWs, p))
           in if final then
                (let (e2, last2, p2) =
                       (if length (buffer p1) > 0
                        then ([Push stream (buffer p1)],
                              updateLastNonWhitespace last1 (buffer p1), p1\<lparr>buffer := []\<rparr>)
                        else ([], last1, p1));
                     (e3, p3) = closeAgentRunBlock stream last2 p2
                 in (e1 @ e2 @ e3, p3, True))
              else
                (e1, p1\<lparr>activeBlock := Some (agent_run_block index stream headerSource last1)\<rparr>,
                 emitLength > 0))
      | Some closeIdx \<Rightarrow>
          (let chunk = take closeIdx (buffer p);
               (e1, last1) =
                 (if closeIdx > 0
                  then ([Push stream chunk], updateLastNonWhitespace lastNonWs chunk)
                  else ([], lastNonWs));
               (e2, p2) = closeAgentRunBlock stream last1
                            (p\<lparr>buffer := drop (closeIdx + length FENCE) (buffer p)\<rparr>)
           in (e1 @ e2, p2, True)))"

definition consumeAgentDataBlock ::
  "nat \<Rightarrow> bool \<Rightarrow> SegmentParser \<Rightarrow> parser_event list \<times> SegmentParser \<times> bool"
where
  "consumeAgentDataBlock stream final p =
     (case indexOf (buffer p) FENCE of
        None \<Rightarrow>
          (let emitLength = (if final then length (buffer p) else length (buffer p) - MAX_TAIL);
               (e1, p1) =
                 (if emitLength > 0
                  then ([Push stream (take emitLength (buffer p))],
                        p\<lparr>buffer := drop emitLength (buffer p)\<rparr>)
                  else ([], p))
           in if final then
                (let (e2, p2) =
                       (if length (buffer p1) > 0
                        then ([Push stream (buffer p1)], p1\<lparr>buffer := []\<rparr>)
                        else ([], p1))
                 in (e1 @ e2 @ [Close stream], p2\<lparr>activeBlock := None\<rparr>, True))
              else (e1, p1, emitLength > 0))
      | Some closeIdx \<Rightarrow>
          ((if closeIdx > 0 then [Push stream (take closeIdx (buffer p))] else []) @
             [Close stream],
           p\<lparr>buffer := drop (closeIdx + length FENCE) (buffer p), activeBlock := None\<rparr>,
           True))"

definition consumePassthroughBlock ::
  "nat \<Rightarrow> bool \<Rightarrow> SegmentParser \<Rightarrow> parser_event list \<times> SegmentParser \<times> bool"
where
  "consumePassthroughBlock stream final p =
     (case indexOf (buffer p) FENCE of
        None \<Rightarrow>
          (if \<not> final then
             (let keep = min (countTrailingBackticks (buffer p)) MAX_TAIL;
                  emitLength = length (buffer p) - keep
              in if emitLength \<le> 0 then ([], p, False)
                 else ([Push stream (take emitLength (buffer p))],
                       p\<lparr>buffer := drop emitLength (buffer p)\<rparr>, True))
           else ([Push stream (buffer p)], p\<lparr>buffer := [], activeBlock := None\<rparr>, True))
      | Some closeIdx \<Rightarrow>
          ((if closeIdx > 0 then [Push stream (take closeIdx (buffer p))] else []) @
             [Push stream FENCE],
           p\<lparr>buffer := drop (closeIdx + length FENCE) (buffer p), activeBlock := None\<rparr>,
           True))"

definition consumeActiveBlock ::
  "ActiveBlock \<Rightarrow> bool \<Rightarrow> SegmentParser \<Rightarrow> parser_event list \<times> SegmentParser \<times> bool"
where
  "consumeActiveBlock block final p =
     (case block of
        agent_run_block index stream headerSource lastNonWs \<Rightarrow>
          consumeAgentRunBlock index stream headerSource lastNonWs final p
      | agent_data_block stream \<Rightarrow> consumeAgentDataBlock stream final p
      | passthrough_block stream \<Rightarrow> consumePassthroughBlock stream final p)"

subsection \<open>The drain loop\<close>

text \<open>
  One turn of the \<open>while (true)\<close> loop of \<open>drain\<close>: the events, the parser afterwards,
  and whether the loop goes on (\<open>continue\<close>) or ends (\<open>break\<close>).
\<close>

definition drain_step ::
  "bool \<Rightarrow> SegmentParser \<Rightarrow> parser_event list \<times> SegmentParser \<times> bool"
where
  "drain_step final p =
     (case activeBlock p of
        Some block \<Rightarrow> consumeActiveBlock block final p
      | None \<Rightarrow>
          (case indexOf (buffer p) FENCE of
             None \<Rightarrow> (case flushMarkdown final p of (e, q) \<Rightarrow> (e, q, False))
           | Some fenceIdx \<Rightarrow>
               if fenceIdx > 0 then
                 (case pushMarkdown (take fenceIdx (buffer p))
                         (p\<lparr>buffer := drop fenceIdx (buffer p)\<rparr>) of
                    (e, q) \<Rightarrow> (e, q, True))
               else if \<not> startsWith (buffer p) FENCE then
                 (case pushMarkdown (take 1 (buffer p)) p of
                    (e, q) \<Rightarrow> (e, q\<lparr>buffer := drop 1 (buffer q)\<rparr>, True))
               else
                 (case indexOfFrom (buffer p) [10] (length FENCE) of
                    None \<Rightarrow>
                      if final then
                        (case pushMarkdown (buffer p) p of
                           (e1, p1) \<Rightarrow>
                             (case closeMarkdownStream (p1\<lparr>buffer := []\<rparr>) of
                                (e2, p2) \<Rightarrow> (e1 @ e2, p2, False)))
                      else ([], p, False)
                  | Some headerEnd \<Rightarrow>
                      (let rawHeader = stripCarriageReturn
                             (take (headerEnd - length FENCE) (drop (length FENCE) (buffer p)));
                           header = trim rawHeader;
                           blockInfo = parseHeader header rawHeader;
                           p1 = p\<lparr>buffer := drop (headerEnd + 1) (buffer p)\<rparr>
                       in case blockInfo of
                            None \<Rightarrow>
                              (case ensureMarkdownStream p1 of
                                 (stream, yielded, p2) \<Rightarrow>
                                   (yielded @ [Push stream (FENCE @ rawHeader @ [10])],
                                    p2\<lparr>activeBlock := Some (passthrough_block stream)\<rparr>,
                                    True))
                          | Some info \<Rightarrow>
                              (case closeMarkdownStream p1 of
                                 (e1, p2) \<Rightarrow>
                                   (case openBlock info p2 of
                                      (segment, p3) \<Rightarrow> (e1 @ [Yield segment], p3, True)))))))"


text \<open>
  The loop of \<open>drain\<close> ends: every turn that goes on shortens the buffer or leaves the
  active block.
\<close>

lemma indexOf_bound: "indexOf s n = Some k \<Longrightarrow> k + length n \<le> length s"
proof (induction s arbitrary: k)
  case Nil
  then show ?case by (simp split: if_splits)
next
  case (Cons c cs)
  show ?case
  proof (cases "take (length n) (c # cs) = n")
    case True
    have "length (take (length n) (c # cs)) = length n"
      by (rule arg_cong [OF True])
    then have "length n \<le> length (c # cs)"
      by (simp add: min_def split: if_splits)
    then show ?thesis using Cons.prems True by simp
  next
    case False
    then obtain j where "indexOf cs n = Some j" "k = Suc j"
      using Cons.prems by auto
    then show ?thesis using Cons.IH by fastforce
  qed
qed

lemma indexOfFrom_bound:
  "indexOfFrom s n start = Some h \<Longrightarrow> start \<le> length s \<Longrightarrow> start \<le> h \<and> h + length n \<le> length s"
  by (auto simp: indexOfFrom_def dest!: indexOf_bound)

definition drain_measure :: "SegmentParser \<Rightarrow> nat" where
  "drain_measure p = 2 * length (buffer p) + (if activeBlock p = None then 0 else 1)"

lemma FENCE_length [simp]: "length FENCE = 3"
  by (simp add: FENCE_def str_def)

lemma MAX_TAIL_2 [simp]: "MAX_TAIL = 2"
  by (simp add: MAX_TAIL_def)

lemma pushMarkdown_fields [simp]:
  "buffer (snd (pushMarkdown t p)) = buffer p"
  "activeBlock (snd (pushMarkdown t p)) = activeBlock p"
  "blockIndex (snd (pushMarkdown t p)) = blockIndex p"
  by (simp_all add: pushMarkdown_def ensureMarkdownStream_def Let_def split: option.splits)

lemma closeMarkdownStream_fields [simp]:
  "buffer (snd (closeMarkdownStream p)) = buffer p"
  "activeBlock (snd (closeMarkdownStream p)) = activeBlock p"
  "blockIndex (snd (closeMarkdownStream p)) = blockIndex p"
  "streams_created (snd (closeMarkdownStream p)) = streams_created p"
  "markdownStream (snd (closeMarkdownStream p)) = None"
  by (simp_all add: closeMarkdownStream_def split: option.splits)

lemma drain_step_decreases:
  assumes "drain_step final p = (e, p', True)"
  shows "drain_measure p' < drain_measure p"
proof (cases "activeBlock p")
  case (Some block)
  show ?thesis
  proof (cases block)
    case (agent_run_block index stream headerSource lastNonWs)
    then show ?thesis
      using assms Some
      by (auto simp: drain_step_def consumeActiveBlock_def consumeAgentRunBlock_def
            closeAgentRunBlock_def drain_measure_def Let_def
          split: option.splits if_splits prod.splits dest!: indexOf_bound)
  next
    case (agent_data_block stream)
    then show ?thesis
      using assms Some
      by (auto simp: drain_step_def consumeActiveBlock_def consumeAgentDataBlock_def
            drain_measure_def Let_def
          split: option.splits if_splits prod.splits dest!: indexOf_bound)
  next
    case (passthrough_block stream)
    then show ?thesis
      using assms Some
      by (auto simp: drain_step_def consumeActiveBlock_def consumePassthroughBlock_def
            drain_measure_def Let_def
          split: option.splits if_splits prod.splits dest!: indexOf_bound)
  qed
next
  case None
  show ?thesis
  proof (cases "indexOf (buffer p) FENCE")
    case no: None
    then show ?thesis using assms None by (simp add: drain_step_def split: prod.splits)
  next
    case (Some fenceIdx)
    note b = indexOf_bound [OF Some]
    show ?thesis
    proof (cases "fenceIdx > 0")
      case True
      have "p' = snd (pushMarkdown (take fenceIdx (buffer p)) (p\<lparr>buffer := drop fenceIdx (buffer p)\<rparr>))"
        using assms None Some True by (auto simp: drain_step_def split: prod.splits)
      then show ?thesis using None True b by (simp add: drain_measure_def)
    next
      case False
      show ?thesis
      proof (cases "startsWith (buffer p) FENCE")
        case sw: False
        obtain e0 q where pm: "pushMarkdown (take 1 (buffer p)) p = (e0, q)"
          by (cases "pushMarkdown (take 1 (buffer p)) p")
        have q: "buffer q = buffer p" "activeBlock q = activeBlock p"
          by (metis pm pushMarkdown_fields(1) snd_conv) (metis pm pushMarkdown_fields(2) snd_conv)
        have "p' = q\<lparr>buffer := drop 1 (buffer q)\<rparr>"
          using assms None Some False sw pm by (simp add: drain_step_def)
        then show ?thesis using None b q by (simp add: drain_measure_def)
      next
        case True
        show ?thesis
        proof (cases "indexOfFrom (buffer p) [10] (length FENCE)")
          case no: None
          then show ?thesis
            using assms None Some False True
            by (auto simp: drain_step_def split: prod.splits if_splits)
        next
          case (Some headerEnd)
          have hb: "3 \<le> headerEnd \<and> headerEnd + 1 \<le> length (buffer p)"
            using indexOfFrom_bound [OF Some] b by simp
          have "length (buffer p') = length (buffer p) - (headerEnd + 1)"
            using assms None \<open>indexOf (buffer p) FENCE = Some fenceIdx\<close> False True Some
            by (auto simp: drain_step_def Let_def ensureMarkdownStream_def openBlock_def
                  closeMarkdownStream_def
                split: prod.splits option.splits BlockInfo.splits)
          then show ?thesis using None hb by (auto simp: drain_measure_def)
        qed
      qed
    qed
  qed
qed

text \<open>\<open>drain(final)\<close>: the turns of the loop until the first \<open>break\<close>.\<close>

function drain :: "bool \<Rightarrow> SegmentParser \<Rightarrow> parser_event list \<times> SegmentParser" where
  "drain final p =
     (case drain_step final p of
        (e, p', continue) \<Rightarrow>
          if continue then (case drain final p' of (e', p'') \<Rightarrow> (e @ e', p''))
          else (e, p'))"
  by pat_completeness auto
termination
  by (relation "measure (\<lambda>(final, p). drain_measure p)")
     (auto dest: drain_step_decreases [OF sym])

declare drain.simps [simp del]

text \<open>
  \<open>parse\<close>: every chunk is appended and drained, and the end of the stream drains with
  \<open>final\<close> set. The result is everything the parser did, in order.
\<close>

fun parse_chunks :: "jsstring list \<Rightarrow> SegmentParser \<Rightarrow> parser_event list \<times> SegmentParser" where
  "parse_chunks [] p = ([], p)"
| "parse_chunks (chunk # chunks) p =
     (case drain False (append_text chunk p) of
        (e1, p1) \<Rightarrow> (case parse_chunks chunks p1 of (e2, p2) \<Rightarrow> (e1 @ e2, p2)))"

definition parse :: "jsstring list \<Rightarrow> parser_event list" where
  "parse chunks =
     (case parse_chunks chunks new_parser of
        (e1, p1) \<Rightarrow> (case drain True p1 of (e2, p2) \<Rightarrow> e1 @ e2))"


subsection \<open>What the consumer sees\<close>

text \<open>
  The tokens a consumer reads from a token stream until it ends: the non-empty chunks
  pushed before the stream was closed (\<open>push\<close> ignores an empty chunk and a closed
  stream). The body of a segment is their concatenation.
\<close>

fun stream_tokens :: "nat \<Rightarrow> parser_event list \<Rightarrow> jsstring list" where
  "stream_tokens s [] = []"
| "stream_tokens s (Yield seg # es) = stream_tokens s es"
| "stream_tokens s (Push s' t # es) =
     (if s' = s \<and> t \<noteq> [] then t # stream_tokens s es else stream_tokens s es)"
| "stream_tokens s (Close s' # es) = (if s' = s then [] else stream_tokens s es)"

definition body :: "nat \<Rightarrow> parser_event list \<Rightarrow> jsstring" where
  "body s es = concat (stream_tokens s es)"

fun yields :: "parser_event list \<Rightarrow> ParserSegment list" where
  "yields [] = []"
| "yields (Yield seg # es) = seg # yields es"
| "yields (Push s t # es) = yields es"
| "yields (Close s # es) = yields es"

text \<open>
  A segment as the claims speak of it: its kind, its block index and streamed-data
  identifier, and its body.
\<close>

datatype segment_view =
    Prose jsstring
  | Code nat jsstring
  | Data nat jsstring jsstring

fun view :: "parser_event list \<Rightarrow> ParserSegment \<Rightarrow> segment_view" where
  "view es (MarkdownSegment s) = Prose (body s es)"
| "view es (AgentRunSegment index s) = Code index (body s es)"
| "view es (AgentDataSegment index streamedDataId s) = Data index streamedDataId (body s es)"

definition segments :: "parser_event list \<Rightarrow> segment_view list" where
  "segments es = map (view es) (yields es)"

text \<open>
  A code body ends with a semicolon, ignoring trailing white space, when its last
  character that is not white space is a semicolon; it is blank when it has no such
  character.
\<close>

definition lastNonWhitespace :: "jsstring \<Rightarrow> nat option" where
  "lastNonWhitespace b = updateLastNonWhitespace None b"

definition ends_with_semicolon :: "jsstring \<Rightarrow> bool" where
  "ends_with_semicolon b \<longleftrightarrow> lastNonWhitespace b = Some (cu CHR '';'')"

definition blank :: "jsstring \<Rightarrow> bool" where
  "blank b \<longleftrightarrow> lastNonWhitespace b = None"

text \<open>
  A prose body without its leading white space (the characters \<open>isWhitespaceOnly\<close>
  accepts), and a segment with its body so trimmed if it is prose.
\<close>

definition trim_leading :: "segment_view \<Rightarrow> segment_view" where
  "trim_leading v =
     (case v of Prose b \<Rightarrow> Prose (dropWhile isProseSpace b) | _ \<Rightarrow> v)"


subsection \<open>Notions for the proofs about the parser\<close>

text \<open>
  The token stream an event is about; \<open>streams_below n\<close> says that the events only speak
  of the first \<open>n\<close> streams. A parser is well formed when the streams it holds have been
  created.
\<close>

fun stream_of :: "ParserSegment \<Rightarrow> nat" where
  "stream_of (MarkdownSegment s) = s"
| "stream_of (AgentRunSegment index s) = s"
| "stream_of (AgentDataSegment index sdid s) = s"

fun event_stream :: "parser_event \<Rightarrow> nat" where
  "event_stream (Yield seg) = stream_of seg"
| "event_stream (Push s t) = s"
| "event_stream (Close s) = s"

definition streams_below :: "nat \<Rightarrow> parser_event list \<Rightarrow> bool" where
  "streams_below n es \<longleftrightarrow> list_all (\<lambda>e. event_stream e < n) es"

fun block_stream :: "ActiveBlock \<Rightarrow> nat" where
  "block_stream (agent_run_block index s headerSource lastNonWs) = s"
| "block_stream (agent_data_block s) = s"
| "block_stream (passthrough_block s) = s"

definition parser_wf :: "SegmentParser \<Rightarrow> bool" where
  "parser_wf p \<longleftrightarrow>
     (\<forall>m. markdownStream p = Some m \<longrightarrow> m < streams_created p) \<and>
     (\<forall>b. activeBlock p = Some b \<longrightarrow> block_stream b < streams_created p)"


text \<open>The needle stands in the string at position \<open>j\<close>.\<close>

definition occurs_at :: "jsstring \<Rightarrow> jsstring \<Rightarrow> nat \<Rightarrow> bool" where
  "occurs_at s n j \<longleftrightarrow> j + length n \<le> length s \<and> take (length n) (drop j s) = n"


text \<open>
  The turn of the loop of \<open>drain\<close> that reads a fence header ending at \<open>headerEnd\<close>, as
  in \<open>drain_step\<close>.
\<close>

definition header_step ::
  "nat \<Rightarrow> SegmentParser \<Rightarrow> parser_event list \<times> SegmentParser \<times> bool"
where
  "header_step headerEnd p =
     (let rawHeader = stripCarriageReturn (take (headerEnd - 3) (drop 3 (buffer p)));
          p1 = p\<lparr>buffer := drop (headerEnd + 1) (buffer p)\<rparr>
      in case parseHeader (trim rawHeader) rawHeader of
           None \<Rightarrow>
             (fst (snd (ensureMarkdownStream p1)) @
                [Push (fst (ensureMarkdownStream p1)) (FENCE @ rawHeader @ [10])],
              (snd (snd (ensureMarkdownStream p1)))\<lparr>activeBlock :=
                 Some (passthrough_block (fst (ensureMarkdownStream p1)))\<rparr>,
              True)
         | Some blockInfo \<Rightarrow>
             (fst (closeMarkdownStream p1) @ [Yield (fst (openBlock blockInfo (snd (closeMarkdownStream p1))))],
              snd (openBlock blockInfo (snd (closeMarkdownStream p1))),
              True))"

text \<open>
  A code stream is in order when it is closed and its body is blank or ends with a
  semicolon. The invariant of the parser for the code segments: the stored
  \<open>lastNonWhitespaceChar\<close> of an open code block is the one of the body pushed so far, and
  every code segment yielded so far is in order or is the open block.
\<close>

definition code_ok :: "parser_event list \<Rightarrow> nat \<Rightarrow> bool" where
  "code_ok E s \<longleftrightarrow>
     Close s \<in> set E \<and> (blank (body s E) \<or> ends_with_semicolon (body s E))"

definition run_inv :: "parser_event list \<Rightarrow> SegmentParser \<Rightarrow> bool" where
  "run_inv E p \<longleftrightarrow>
     parser_wf p \<and> streams_below (streams_created p) E \<and>
     (\<forall>i s hs l. activeBlock p = Some (agent_run_block i s hs l) \<longrightarrow>
        Close s \<notin> set E \<and> l = lastNonWhitespace (body s E)) \<and>
     (\<forall>i s. AgentRunSegment i s \<in> set (yields E) \<longrightarrow>
        code_ok E s \<or> (\<exists>j hs l. activeBlock p = Some (agent_run_block j s hs l)))"

definition idle_post ::
  "SegmentParser \<Rightarrow> parser_event list \<times> SegmentParser \<times> bool \<Rightarrow> bool"
where
  "idle_post p r \<longleftrightarrow>
     (\<forall>i s. AgentRunSegment i s \<in> set (yields (fst r)) \<longrightarrow>
        (\<exists>hs. activeBlock (fst (snd r)) = Some (agent_run_block i s hs None))) \<and>
     (\<forall>i s hs l. activeBlock (fst (snd r)) = Some (agent_run_block i s hs l) \<longrightarrow>
        s = streams_created p \<and> l = None \<and> Close s \<notin> set (fst r) \<and> body s (fst r) = [])"

text \<open>
  Two event sequences are the same to every consumer when they yield the same segments,
  give every stream the same body and close the same streams.
\<close>

definition ev_eq :: "parser_event list \<Rightarrow> parser_event list \<Rightarrow> bool" where
  "ev_eq L R \<longleftrightarrow>
     yields L = yields R \<and> (\<forall>s. body s L = body s R) \<and>
     (\<forall>s. Close s \<in> set L \<longleftrightarrow> Close s \<in> set R)"


text \<open>The segments yielded have streams numbered from \<open>n\<close> on.\<close>

definition yields_from :: "nat \<Rightarrow> parser_event list \<Rightarrow> bool" where
  "yields_from n es \<longleftrightarrow> list_all (\<lambda>seg. n \<le> stream_of seg) (yields es)"


text \<open>
  Two event sequences show the same segments, up to the leading white space of the prose
  bodies.
\<close>

definition sim :: "parser_event list \<Rightarrow> parser_event list \<Rightarrow> bool" where
  "sim L R \<longleftrightarrow> map trim_leading (segments L) = map trim_leading (segments R)"

section \<open>The interaction loop (Runtime.newInteraction)\<close>

text \<open>
  \<open>LlmLogsPayload\<close> is the transcript of one model turn: both fields are optional
  strings.
\<close>

record LlmLogsPayload =
  logs :: "jsstring option"
  error :: "jsstring option"

text \<open>
  \<open>hasTranscript\<close>: \<open>Boolean((p.logs && p.logs.trim()) || (p.error && p.error.trim()))\<close>.
  An absent or empty string is falsy, and so is a string that trims to the empty string.
\<close>

definition truthyTrim :: "jsstring option \<Rightarrow> bool" where
  "truthyTrim f = (case f of None \<Rightarrow> False | Some s \<Rightarrow> s \<noteq> [] \<and> trim s \<noteq> [])"

definition hasTranscript :: "LlmLogsPayload \<Rightarrow> bool" where
  "hasTranscript p \<longleftrightarrow> truthyTrim (logs p) \<or> truthyTrim (error p)"

definition maxTurns :: nat where
  "maxTurns = 15"

text \<open>
  One model turn is one call of the language model followed by
  \<open>consumeAssistantStream\<close>. The call is \<open>llm.userQuery\<close> on turn 0 (or the recording,
  when a recording path is configured) and \<open>llm.logs(transcript)\<close> afterwards.
\<close>

datatype llm_call = Recording | UserQuery jsstring | Logs LlmLogsPayload

datatype trace_category = exec_error | exec_result | user

record runtime =
  running :: bool
  stopped :: bool
  recordingPath :: "jsstring option"
  calls :: "llm_call list"
  traces :: "(trace_category \<times> jsstring) list"

text \<open>
  \<open>channel.sendTrace\<close> as the loop uses it: \<open>if (transcript.error) sendTrace(...)\<close>
  sends nothing for an absent or empty text.
\<close>

definition sendTraceIf :: "trace_category \<Rightarrow> jsstring option \<Rightarrow> runtime \<Rightarrow> runtime" where
  "sendTraceIf cat txt rt =
     (case txt of
        None \<Rightarrow> rt
      | Some t \<Rightarrow> if t = [] then rt else rt\<lparr>traces := traces rt @ [(cat, t)]\<rparr>)"

text \<open>
  The two \<open>break\<close> statements at the end of the loop body: the loop goes on to turn
  \<open>turn + 1\<close> only if the transcript is non-empty and the incremented counter is below
  \<open>maxTurns\<close>.
\<close>

definition continue_after :: "nat \<Rightarrow> LlmLogsPayload \<Rightarrow> bool" where
  "continue_after turn t \<longleftrightarrow> hasTranscript t \<and> \<not> (turn + 1 \<ge> maxTurns)"

definition next_call :: "runtime \<Rightarrow> jsstring \<Rightarrow> nat \<Rightarrow> LlmLogsPayload \<Rightarrow> llm_call" where
  "next_call rt userQuery turn transcript =
     (if turn = 0 \<and> recordingPath rt \<noteq> None then Recording
      else if turn = 0 then UserQuery userQuery
      else Logs transcript)"

section \<open>The WebSocket channel (WebSocketChannel)\<close>

text \<open>
  Payloads are JSON values of a type \<open>'v\<close> that the channel never inspects. The timestamp
  that \<open>log\<close> adds to a line (\<open>t\<close>) is left out of the model.
\<close>

record 'v MountPayload =
  mountId :: jsstring
  uiSource :: jsstring
  initialData :: "'v option"
  streamedDataId :: "jsstring option"
  outputSchema :: 'v
  callbackNames :: "jsstring list option"

datatype log_level = debug_level | info_level | warn_level | error_level

record 'v LogLine =
  lvl :: log_level
  msg :: "jsstring option"
  data :: "'v option"
  code :: "jsstring option"
  src :: "jsstring option"

datatype 'v envelope =
    mount "'v MountPayload"
  | log_line "'v LogLine"
  | trace jsstring
  | other_frame 'v

datatype 'v client_envelope =
    ui_submit jsstring 'v
  | client_log "'v LogLine"
  | other_client 'v

text \<open>
  The channel's fields are \<open>closed\<close> and \<open>pendingResults\<close>. A promise made by
  \<open>sendMount\<close> is named by a number; \<open>pendingResults\<close> maps a mount identifier to the
  promise whose \<open>resolve\<close> function it stores. \<open>resolutions\<close> lists every call of such a
  function with its argument, \<open>frames\<close> every frame handed to the socket, and
  \<open>socket_up\<close> says whether the socket currently accepts frames (\<open>socket.send\<close>
  throws otherwise).
\<close>

record 'v channel =
  closed :: bool
  pendingResults :: "jsstring \<rightharpoonup> nat"
  nextPromise :: nat
  resolutions :: "(nat \<times> 'v) list"
  frames :: "'v envelope list"
  socket_up :: bool

definition new_channel :: "'v channel" where
  "new_channel =
     \<lparr>closed = False, pendingResults = Map.empty, nextPromise = 0, resolutions = [],
      frames = [], socket_up = True\<rparr>"

definition send :: "'v envelope \<Rightarrow> 'v channel \<Rightarrow> 'v channel" where
  "send envelope ch =
     (if closed ch then ch
      else if socket_up ch then ch\<lparr>frames := frames ch @ [envelope]\<rparr>
      else ch\<lparr>closed := True\<rparr>)"

definition sendTrace :: "jsstring \<Rightarrow> 'v channel \<Rightarrow> 'v channel" where
  "sendTrace text ch = (if text = [] then ch else send (trace text) ch)"

definition sendMount :: "'v MountPayload \<Rightarrow> 'v channel \<Rightarrow> nat \<times> 'v channel" where
  "sendMount event ch =
     (let ch1 = send (mount event) ch;
          p = nextPromise ch1
      in (p, ch1\<lparr>pendingResults := (pendingResults ch1)(mountId event \<mapsto> p),
                 nextPromise := p + 1\<rparr>))"

definition log :: "'v LogLine \<Rightarrow> 'v channel \<Rightarrow> 'v channel" where
  "log line ch =
     send (log_line (line\<lparr>src := (case src line of None \<Rightarrow> Some (str ''server'')
                                                     | Some s \<Rightarrow> Some s)\<rparr>)) ch"

definition shutdown :: "'v channel \<Rightarrow> 'v channel" where
  "shutdown ch = (if closed ch then ch else ch\<lparr>closed := True\<rparr>)"

definition notifyClosed :: "'v channel \<Rightarrow> 'v channel" where
  "notifyClosed ch = ch\<lparr>closed := True\<rparr>"

text \<open>
  The line that \<open>resolveUiSubmit\<close> logs when no resolver is stored for the mount
  identifier. \<open>mk_data\<close> builds the JSON object \<open>{ mountId }\<close>.
\<close>

definition unknown_ui_submit_line :: "(jsstring \<Rightarrow> 'v) \<Rightarrow> jsstring \<Rightarrow> 'v LogLine" where
  "unknown_ui_submit_line mk_data m =
     \<lparr>lvl = error_level, msg = Some (str ''ui_submit received with no pending mount''),
      data = Some (mk_data m), code = Some (str ''unknown_ui_submit''), src = None\<rparr>"

definition resolveUiSubmit ::
  "(jsstring \<Rightarrow> 'v) \<Rightarrow> jsstring \<Rightarrow> 'v \<Rightarrow> 'v channel \<Rightarrow> 'v channel"
where
  "resolveUiSubmit mk_data m v ch =
     (case pendingResults ch m of
        None \<Rightarrow> log (unknown_ui_submit_line mk_data m) ch
      | Some resolver \<Rightarrow>
          ch\<lparr>pendingResults := (pendingResults ch)(m := None),
             resolutions := resolutions ch @ [(resolver, v)]\<rparr>)"

definition dispatchClientEnvelope ::
  "(jsstring \<Rightarrow> 'v) \<Rightarrow> 'v client_envelope \<Rightarrow> 'v channel \<Rightarrow> 'v channel"
where
  "dispatchClientEnvelope mk_data envelope ch =
     (case envelope of
        ui_submit m v \<Rightarrow> resolveUiSubmit mk_data m v ch
      | client_log line \<Rightarrow> log (line\<lparr>src := Some (str ''client'')\<rparr>) ch
      | other_client _ \<Rightarrow> ch)"

text \<open>
  Everything that can happen to a channel apart from \<open>sendMount\<close>: a call of one of its
  other methods, an inbound envelope, or the socket going down or coming back.
\<close>

datatype 'v channel_op =
    Send "'v envelope"
  | SendTrace jsstring
  | Log "'v LogLine"
  | Shutdown
  | NotifyClosed
  | Incoming "'v client_envelope"
  | Socket bool

fun channel_step :: "(jsstring \<Rightarrow> 'v) \<Rightarrow> 'v channel_op \<Rightarrow> 'v channel \<Rightarrow> 'v channel" where
  "channel_step mk (Send e) ch = send e ch"
| "channel_step mk (SendTrace t) ch = sendTrace t ch"
| "channel_step mk (Log l) ch = log l ch"
| "channel_step mk Shutdown ch = shutdown ch"
| "channel_step mk NotifyClosed ch = notifyClosed ch"
| "channel_step mk (Incoming e) ch = dispatchClientEnvelope mk e ch"
| "channel_step mk (Socket b) ch = ch\<lparr>socket_up := b\<rparr>"

subsection \<open>Mounts (MountManager.mount)\<close>

text \<open>
  \<open>sendMount\<close> has one caller, \<open>MountManager.mount\<close>, which draws the mount identifier
  from \<open>crypto.randomUUID()\<close>, builds the payload and returns the handle
  \<open>{ mountId, result }\<close> with the promise of \<open>sendMount\<close>. \<open>randomUUID\<close> belongs to
  the platform: the identifiers it returns are the values \<open>uuid 0\<close>, \<open>uuid 1\<close>, ... of a
  parameter \<open>uuid\<close>, and the host counts the draws. The other fields of the payload come
  from the transpiler, \<open>Data.snapshot\<close>, \<open>StreamedData.getId\<close> and zod; the model takes
  them as computed. A call of \<open>mount\<close> that throws before \<open>sendMount\<close>, and every other
  use of \<open>randomUUID\<close>, is a draw without a mount.
\<close>

record 'v mount_parts =
  part_uiSource :: jsstring
  part_initialData :: "'v option"
  part_streamedDataId :: "jsstring option"
  part_outputSchema :: 'v
  part_callbackNames :: "jsstring list option"

record 'v host =
  host_channel :: "'v channel"
  uuids_drawn :: nat

definition new_host :: "'v host" where
  "new_host = \<lparr>host_channel = new_channel, uuids_drawn = 0\<rparr>"

definition MountManager_mount ::
  "(nat \<Rightarrow> jsstring) \<Rightarrow> 'v mount_parts \<Rightarrow> 'v host \<Rightarrow> (jsstring \<times> nat) \<times> 'v host"
where
  "MountManager_mount uuid parts h =
     (let mountId' = uuid (uuids_drawn h);
          payload =
            \<lparr>mountId = mountId', uiSource = part_uiSource parts,
             initialData = part_initialData parts,
             streamedDataId = part_streamedDataId parts,
             outputSchema = part_outputSchema parts,
             callbackNames = part_callbackNames parts\<rparr>;
          (resultPromise, ch) = sendMount payload (host_channel h)
      in ((mountId', resultPromise),
          h\<lparr>host_channel := ch, uuids_drawn := uuids_drawn h + 1\<rparr>))"

datatype 'v host_op =
    Mount "'v mount_parts"
  | RandomUUID
  | OnChannel "'v channel_op"

fun host_step ::
  "(nat \<Rightarrow> jsstring) \<Rightarrow> (jsstring \<Rightarrow> 'v) \<Rightarrow> 'v host_op \<Rightarrow> 'v host \<Rightarrow> 'v host"
where
  "host_step uuid mk (Mount parts) h = snd (MountManager_mount uuid parts h)"
| "host_step uuid mk RandomUUID h = h\<lparr>uuids_drawn := uuids_drawn h + 1\<rparr>"
| "host_step uuid mk (OnChannel x) h = h\<lparr>host_channel := channel_step mk x (host_channel h)\<rparr>"

fun host_run ::
  "(nat \<Rightarrow> jsstring) \<Rightarrow> (jsstring \<Rightarrow> 'v) \<Rightarrow> 'v host_op list \<Rightarrow> 'v host \<Rightarrow> 'v host"
where
  "host_run uuid mk [] h = h"
| "host_run uuid mk (x # xs) h = host_run uuid mk xs (host_step uuid mk x h)"

text \<open>The values a promise's resolve function has been called with, in order.\<close>

definition resolved_with :: "nat \<Rightarrow> 'v channel \<Rightarrow> 'v list" where
  "resolved_with p ch = map snd (filter (\<lambda>r. fst r = p) (resolutions ch))"

definition submits :: "jsstring \<Rightarrow> 'v host_op \<Rightarrow> bool" where
  "submits m x = (case x of OnChannel (Incoming (ui_submit m' v)) \<Rightarrow> m' = m | _ \<Rightarrow> False)"

text \<open>
  The frame that carries the log line of a \<open>ui_submit\<close> without a pending mount, as
  \<open>log\<close> completes it.
\<close>

definition unknown_ui_submit_frame :: "(jsstring \<Rightarrow> 'v) \<Rightarrow> jsstring \<Rightarrow> 'v envelope" where
  "unknown_ui_submit_frame mk_data m =
     log_line
       \<lparr>lvl = error_level, msg = Some (str ''ui_submit received with no pending mount''),
        data = Some (mk_data m), code = Some (str ''unknown_ui_submit''),
        src = Some (str ''server'')\<rparr>"

subsection \<open>Invariants of the channel\<close>

text \<open>
  Promise numbers are handed out in increasing order, so a promise that is stored or has
  been resolved is older than the next one, and every mount identifier in use has been
  drawn. \<open>awaiting m p\<close> holds between a mount and its first submission,
  \<open>settled m p v\<close> after it.
\<close>

definition channel_wf :: "'v channel \<Rightarrow> bool" where
  "channel_wf ch \<longleftrightarrow>
     (\<forall>m p. pendingResults ch m = Some p \<longrightarrow> p < nextPromise ch) \<and>
     (\<forall>r \<in> set (resolutions ch). fst r < nextPromise ch)"

definition awaiting :: "jsstring \<Rightarrow> nat \<Rightarrow> 'v channel \<Rightarrow> bool" where
  "awaiting m p ch \<longleftrightarrow>
     channel_wf ch \<and> pendingResults ch m = Some p \<and> resolved_with p ch = [] \<and>
     (\<forall>m'. m' \<noteq> m \<longrightarrow> pendingResults ch m' \<noteq> Some p)"

definition settled :: "jsstring \<Rightarrow> nat \<Rightarrow> 'v \<Rightarrow> 'v channel \<Rightarrow> bool" where
  "settled m p v ch \<longleftrightarrow>
     channel_wf ch \<and> pendingResults ch m = None \<and> resolved_with p ch = [v] \<and>
     p < nextPromise ch \<and> (\<forall>m'. pendingResults ch m' \<noteq> Some p)"

definition drawn :: "(nat \<Rightarrow> jsstring) \<Rightarrow> jsstring \<Rightarrow> 'v host \<Rightarrow> bool" where
  "drawn uuid m h \<longleftrightarrow> (\<exists>k < uuids_drawn h. m = uuid k)"

section \<open>Reactive records (Data)\<close>

text \<open>
  An object is its own properties, each with the attributes of a data property, and its
  extensible flag. A property key is a string or a symbol; \<open>DATA_ID\<close> is the registered
  symbol \<open>Symbol.for("fenced.data.id")\<close>. A value is a string or something else:
  \<open>getId\<close> only asks whether \<open>typeof id\<close> is \<open>"string"\<close>.
\<close>

datatype pkey = StrKey jsstring | DATA_ID | SymKey jsstring

datatype 'a jsval = JString jsstring | JOther 'a

record 'a pdesc =
  pvalue :: "'a jsval"
  enumerable :: bool
  writable :: bool
  configurable :: bool

record 'a obj =
  props :: "pkey \<rightharpoonup> 'a pdesc"
  extensible :: bool

datatype js_error = TypeError | Error jsstring

text \<open>
  \<open>Object.defineProperty\<close> with a complete data descriptor
  (ValidateAndApplyPropertyDescriptor): a new property needs an extensible object; a
  property that is not configurable keeps its attributes, and its value too unless it is
  writable. A rejected definition throws a TypeError.
\<close>

definition defineProperty :: "'a obj \<Rightarrow> pkey \<Rightarrow> 'a pdesc \<Rightarrow> js_error + 'a obj" where
  "defineProperty ob k d =
     (case props ob k of
        None \<Rightarrow>
          if extensible ob then Inr (ob\<lparr>props := (props ob)(k \<mapsto> d)\<rparr>) else Inl TypeError
      | Some cur \<Rightarrow>
          if configurable cur then Inr (ob\<lparr>props := (props ob)(k \<mapsto> d)\<rparr>)
          else if configurable d \<or> enumerable d \<noteq> enumerable cur then Inl TypeError
          else if \<not> writable cur \<and> (writable d \<or> pvalue d \<noteq> pvalue cur) then Inl TypeError
          else Inr (ob\<lparr>props := (props ob)(k \<mapsto> d)\<rparr>))"

text \<open>Assignment \<open>ob[k] = v\<close> and \<open>delete ob[k]\<close> in strict code.\<close>

definition setProperty :: "'a obj \<Rightarrow> pkey \<Rightarrow> 'a jsval \<Rightarrow> js_error + 'a obj" where
  "setProperty ob k v =
     (case props ob k of
        None \<Rightarrow>
          if extensible ob
          then Inr (ob\<lparr>props := (props ob)(k \<mapsto>
                 \<lparr>pvalue = v, enumerable = True, writable = True, configurable = True\<rparr>)\<rparr>)
          else Inl TypeError
      | Some cur \<Rightarrow>
          if writable cur then Inr (ob\<lparr>props := (props ob)(k \<mapsto> cur\<lparr>pvalue := v\<rparr>)\<rparr>)
          else Inl TypeError)"

definition deleteProperty :: "'a obj \<Rightarrow> pkey \<Rightarrow> js_error + 'a obj" where
  "deleteProperty ob k =
     (case props ob k of
        None \<Rightarrow> Inr ob
      | Some cur \<Rightarrow>
          if configurable cur then Inr (ob\<lparr>props := (props ob)(k := None)\<rparr>)
          else Inl TypeError)"

text \<open>
  The constructor: \<open>proxy\<close> is valtio's, a parameter here; the identifier is the result of
  \<open>randomUUID()\<close>.
\<close>

definition Data_new :: "('a obj \<Rightarrow> 'a obj) \<Rightarrow> jsstring \<Rightarrow> 'a obj \<Rightarrow> js_error + 'a obj" where
  "Data_new proxy uuid initial =
     (let state = proxy initial
      in defineProperty state DATA_ID
           \<lparr>pvalue = JString uuid, enumerable = False, writable = False,
            configurable = False\<rparr>)"

definition Data_getId :: "'a obj \<Rightarrow> js_error + jsstring" where
  "Data_getId data' =
     (case props data' DATA_ID of
        Some d \<Rightarrow>
          (case pvalue d of
             JString idv \<Rightarrow> Inr idv
           | JOther _ \<Rightarrow>
               Inl (Error (str
                 ''Data instance is missing an id. Did it come from this Data constructor?'')))
      | None \<Rightarrow>
          Inl (Error (str
            ''Data instance is missing an id. Did it come from this Data constructor?'')))"

text \<open>\<open>Data.snapshot\<close>; \<open>snapshot\<close> is valtio's, a parameter here.\<close>

definition Data_snapshot :: "('a obj \<Rightarrow> 'a obj) \<Rightarrow> 'a obj \<Rightarrow> js_error + 'a obj" where
  "Data_snapshot snapshot data' =
     (let copy = snapshot data'
      in if props copy DATA_ID \<noteq> None then deleteProperty copy DATA_ID else Inr copy)"

text \<open>
  What code holding the record can do to it afterwards. A failed operation throws and
  leaves the object as it was.
\<close>

datatype 'a obj_op =
    Assign pkey "'a jsval"
  | Delete pkey
  | Define pkey "'a pdesc"
  | PreventExtensions

definition keep :: "'a obj \<Rightarrow> js_error + 'a obj \<Rightarrow> 'a obj" where
  "keep ob r = (case r of Inl _ \<Rightarrow> ob | Inr ob' \<Rightarrow> ob')"

fun obj_step :: "'a obj_op \<Rightarrow> 'a obj \<Rightarrow> 'a obj" where
  "obj_step (Assign k v) ob = keep ob (setProperty ob k v)"
| "obj_step (Delete k) ob = keep ob (deleteProperty ob k)"
| "obj_step (Define k d) ob = keep ob (defineProperty ob k d)"
| "obj_step PreventExtensions ob = ob\<lparr>extensible := False\<rparr>"

fun obj_run :: "'a obj_op list \<Rightarrow> 'a obj \<Rightarrow> 'a obj" where
  "obj_run [] ob = ob"
| "obj_run (x # xs) ob = obj_run xs (obj_step x ob)"

text \<open>The descriptor the constructor gives to the identity property.\<close>

definition identity_desc :: "jsstring \<Rightarrow> 'a pdesc" where
  "identity_desc uuid =
     \<lparr>pvalue = JString uuid, enumerable = False, writable = False, configurable = False\<rparr>"


section \<open>The streaming interpreter (StreamingVmExecutor)\<close>

subsection \<open>Names to hoist\<close>

text \<open>The character classes of \<open>/^[a-zA-Z_$][a-zA-Z0-9_$]*$/\<close>.\<close>

definition isIdentStart :: "nat \<Rightarrow> bool" where
  "isIdentStart c \<longleftrightarrow>
     (cu CHR ''a'' \<le> c \<and> c \<le> cu CHR ''z'') \<or> (cu CHR ''A'' \<le> c \<and> c \<le> cu CHR ''Z'') \<or>
     c = cu CHR ''_'' \<or> c = cu CHR ''$''"

definition isIdentPart :: "nat \<Rightarrow> bool" where
  "isIdentPart c \<longleftrightarrow> isIdentStart c \<or> (cu CHR ''0'' \<le> c \<and> c \<le> cu CHR ''9'')"

definition isIdentifier :: "jsstring \<Rightarrow> bool" where
  "isIdentifier s = (case s of [] \<Rightarrow> False | c # cs \<Rightarrow> isIdentStart c \<and> list_all isIdentPart cs)"

definition isOpen :: "nat \<Rightarrow> bool" where
  "isOpen c \<longleftrightarrow> c = cu CHR ''{'' \<or> c = cu CHR ''['' \<or> c = cu CHR ''(''"

definition isClose :: "nat \<Rightarrow> bool" where
  "isClose c \<longleftrightarrow> c = cu CHR ''}'' \<or> c = cu CHR '']'' \<or> c = cu CHR '')''"

text \<open>
  \<open>findTopLevelIndex(s, char)\<close>. The loop is run on the rest of the string with the
  current index and depth; the depth is a JavaScript number and may become negative.
\<close>

fun findTopLevelIndex_loop :: "jsstring \<Rightarrow> nat \<Rightarrow> nat \<Rightarrow> int \<Rightarrow> nat option" where
  "findTopLevelIndex_loop [] char i depth = None"
| "findTopLevelIndex_loop (c # cs) char i depth =
     (if isOpen c then findTopLevelIndex_loop cs char (i + 1) (depth + 1)
      else if isClose c then findTopLevelIndex_loop cs char (i + 1) (depth - 1)
      else if c = char \<and> depth = 0 then
        (if char = cu CHR ''='' \<and> (case cs of [] \<Rightarrow> False | n # _ \<Rightarrow> n = cu CHR ''>'')
         then findTopLevelIndex_loop cs char (i + 1) depth
         else Some i)
      else findTopLevelIndex_loop cs char (i + 1) depth)"

definition findTopLevelIndex :: "jsstring \<Rightarrow> nat \<Rightarrow> nat option" where
  "findTopLevelIndex s char = findTopLevelIndex_loop s char 0 0"

text \<open>\<open>splitAtTopLevel(s, delimiter)\<close>, with the loop's \<open>current\<close> and \<open>depth\<close>.\<close>

fun splitAtTopLevel_loop :: "jsstring \<Rightarrow> nat \<Rightarrow> jsstring \<Rightarrow> int \<Rightarrow> jsstring list" where
  "splitAtTopLevel_loop [] delimiter current depth = (if current = [] then [] else [current])"
| "splitAtTopLevel_loop (c # cs) delimiter current depth =
     (let depth' = (if isOpen c then depth + 1 else if isClose c then depth - 1 else depth)
      in if c = delimiter \<and> depth' = 0
         then current # splitAtTopLevel_loop cs delimiter [] depth'
         else splitAtTopLevel_loop cs delimiter (current @ [c]) depth')"

definition splitAtTopLevel :: "jsstring \<Rightarrow> nat \<Rightarrow> jsstring list" where
  "splitAtTopLevel s delimiter = splitAtTopLevel_loop s delimiter [] 0"

definition stripDefault :: "jsstring \<Rightarrow> jsstring" where
  "stripDefault s =
     (case findTopLevelIndex s (cu CHR ''='') of
        None \<Rightarrow> s
      | Some eqIdx \<Rightarrow> trim (take eqIdx s))"

definition stripTypeAnnotation :: "jsstring \<Rightarrow> jsstring" where
  "stripTypeAnnotation pattern =
     (if \<not> startsWith pattern (str ''{'') \<and> \<not> startsWith pattern (str ''['')
      then (case indexOf pattern (str '':'') of
              Some colonIdx \<Rightarrow> trim (take colonIdx pattern)
            | None \<Rightarrow> pattern)
      else pattern)"

datatype destructure_type = object_type | array_type

text \<open>\<open>s.slice(1, -1)\<close>.\<close>

definition inner_slice :: "jsstring \<Rightarrow> jsstring" where
  "inner_slice s = butlast (tl s)"

text \<open>
  \<open>parsePattern\<close> and \<open>parseDestructure\<close> call each other on shorter and shorter
  strings: trimming, slicing and splitting never lengthen a string.
\<close>

lemma length_trimStart: "length (trimStart s) \<le> length s"
  by (simp add: trimStart_def length_dropWhile_le)

lemma length_trimEnd: "length (trimEnd s) \<le> length s"
  using length_dropWhile_le [of isJsSpace "rev s"] by (simp add: trimEnd_def)

lemma length_trim: "length (trim s) \<le> length s"
  using length_trimEnd [of "trimStart s"] length_trimStart [of s] by (simp add: trim_def)

lemma length_stripDefault: "length (stripDefault s) \<le> length s"
  using length_trim [of "take n s" for n]
  by (auto simp: stripDefault_def split: option.splits intro: order_trans)

lemma splitAtTopLevel_loop_length:
  "p \<in> set (splitAtTopLevel_loop s d cur depth) \<Longrightarrow> length p \<le> length cur + length s"
proof (induction s arbitrary: cur depth)
  case Nil
  then show ?case by (simp split: if_splits)
next
  case (Cons c cs)
  then show ?case
    by (fastforce simp: Let_def split: if_splits)
qed

lemma splitAtTopLevel_length:
  "p \<in> set (splitAtTopLevel s d) \<Longrightarrow> length p \<le> length s"
  using splitAtTopLevel_loop_length [of p s d "[]" 0] by (simp add: splitAtTopLevel_def)

text \<open>
  \<open>parseDestructure\<close> collects the names of the parts in order; a part that is empty
  after trimming contributes nothing (\<open>continue\<close>).
\<close>

function parsePattern :: "jsstring \<Rightarrow> jsstring list"
  and parseDestructure :: "jsstring \<Rightarrow> destructure_type \<Rightarrow> jsstring list"
where
  "parsePattern pattern =
     (let trimmed = trim pattern
      in if isIdentifier trimmed then [trimmed]
         else if startsWith trimmed (str ''{'') \<and> endsWith trimmed (str ''}'')
         then parseDestructure (inner_slice trimmed) object_type
         else if startsWith trimmed (str ''['') \<and> endsWith trimmed (str '']'')
         then parseDestructure (inner_slice trimmed) array_type
         else [])"
| "parseDestructure inner type =
     concat (map (\<lambda>part.
       let trimmed = trim part
       in if trimmed = [] then []
          else if startsWith trimmed (str ''...'')
          then (let rest = trim (drop 3 trimmed) in if isIdentifier rest then [rest] else [])
          else (case (if type = object_type then findTopLevelIndex trimmed (cu CHR '':'') else None) of
                  Some colonIdx \<Rightarrow> parsePattern (stripDefault (trim (drop (colonIdx + 1) trimmed)))
                | None \<Rightarrow> parsePattern (stripDefault trimmed)))
       (splitAtTopLevel inner (cu CHR '','')))"
  by pat_completeness auto
termination
proof (relation "measure (\<lambda>x. case x of Inl p \<Rightarrow> 2 * length p + 1
                                          | Inr (inner, t) \<Rightarrow> 2 * length inner + 2)",
       goal_cases)
  case 1
  show ?case by simp
next
  case (2 pattern x)
  then have "x \<noteq> []" by (auto simp: startsWith_def str_def)
  then have "length (inner_slice x) < length x" by (cases x) (simp_all add: inner_slice_def)
  then show ?case using 2(1) length_trim [of pattern] by simp
next
  case (3 pattern x)
  then have "x \<noteq> []" by (auto simp: startsWith_def str_def)
  then have "length (inner_slice x) < length x" by (cases x) (simp_all add: inner_slice_def)
  then show ?case using 3(1) length_trim [of pattern] by simp
next
  case (4 inner type x xa)
  have "length (stripDefault xa) \<le> length x"
    using length_stripDefault [of xa] length_trim [of x] 4(2) by simp
  then show ?case using splitAtTopLevel_length [OF 4(1)] by simp
next
  case (5 inner type x xa x2)
  have "length (stripDefault (trim (drop (x2 + 1) xa))) \<le> length x"
    using length_stripDefault [of "trim (drop (x2 + 1) xa)"] length_trim [of "drop (x2 + 1) xa"]
      length_trim [of x] 5(2)
    by simp
  then show ?case using splitAtTopLevel_length [OF 5(1)] by simp
qed

declare parsePattern.simps [simp del] parseDestructure.simps [simp del]

text \<open>
  The match of \<open>/^(const|let)\\s+/\<close>: the length of the matched text, keyword and
  white space.
\<close>

definition match_declaration_keyword :: "jsstring \<Rightarrow> nat option" where
  "match_declaration_keyword s =
     (let keyword = (if startsWith s (str ''const'') then Some (length (str ''const''))
                     else if startsWith s (str ''let'') then Some (length (str ''let''))
                     else None)
      in case keyword of
           None \<Rightarrow> None
         | Some k \<Rightarrow>
             (let spaces = takeWhile isJsSpace (drop k s)
              in if spaces = [] then None else Some (k + length spaces)))"

definition extractVariableNames :: "jsstring \<Rightarrow> jsstring list" where
  "extractVariableNames source =
     (let trimmed = trim source
      in case match_declaration_keyword trimmed of
           None \<Rightarrow> []
         | Some matched \<Rightarrow>
             (let afterKeyword = drop matched trimmed
              in case findTopLevelIndex afterKeyword (cu CHR ''='') of
                   None \<Rightarrow> []
                 | Some eqIndex \<Rightarrow>
                     (let pattern = trim (take eqIndex afterKeyword);
                          patternWithoutType = stripTypeAnnotation pattern
                      in parsePattern patternWithoutType)))"

text \<open>
  \<open>extractFunctionName\<close>: the second group of
  \<open>/^(async\\s+)?function\\s+([a-zA-Z_$][a-zA-Z0-9_$]*)/\<close>, \<open>None\<close> for \<open>null\<close>.
\<close>

definition extractFunctionName :: "jsstring \<Rightarrow> jsstring option" where
  "extractFunctionName source =
     (let trimmed = trim source;
          afterAsync =
            (if startsWith trimmed (str ''async'') \<and>
                takeWhile isJsSpace (drop (length (str ''async'')) trimmed) \<noteq> []
             then dropWhile isJsSpace (drop (length (str ''async'')) trimmed)
             else trimmed)
      in if startsWith afterAsync (str ''function'')
         then
           (let afterFunction = drop (length (str ''function'')) afterAsync;
                name = dropWhile isJsSpace afterFunction
            in if takeWhile isJsSpace afterFunction = [] then None
               else (case name of
                       [] \<Rightarrow> None
                     | c # _ \<Rightarrow> if isIdentStart c then Some (takeWhile isIdentPart name)
                                else None))
         else None)"


subsection \<open>Values, errors and the virtual machine\<close>

text \<open>
  The values of the executed code, as far as the executor looks at them: it reads
  properties of the object a wrapper returns and stores values in the context.
\<close>

datatype jsvalue =
    Undefined
  | Num int
  | Text jsstring
  | Function jsstring
  | Object "(jsstring \<times> jsvalue) list"

text \<open>
  What \<open>formatError\<close> sees of a thrown value: an instance of the host's \<open>Error\<close> with
  its message; another object, with its \<open>message\<close> property if that is a string, and
  \<open>String(error)\<close>; or a primitive with \<open>String(error)\<close>.
\<close>

datatype thrown =
    ErrorInstance jsstring
  | ObjectThrown "jsstring option" jsstring
  | PrimitiveThrown jsstring

fun formatError :: "thrown \<Rightarrow> jsstring" where
  "formatError (ErrorInstance m) = m"
| "formatError (ObjectThrown (Some m) s) = (if length m > 0 then m else s)"
| "formatError (ObjectThrown None s) = s"
| "formatError (PrimitiveThrown s) = s"

type_synonym vm_context = "jsstring \<rightharpoonup> jsvalue"

text \<open>
  The transpiler and the virtual machine come from the platform and are parameters.
  \<open>transformSync\<close> answers with the transpiled code or, when it throws, with the message
  \<open>tryTranspile\<close> keeps. \<open>runInContext\<close> compiles a wrapped source, runs it in the
  context and awaits the promise: the result says how the promise settled, what the
  context then holds, what was written to the console, and how long it took.
\<close>

record vm_result =
  completion :: "thrown + jsvalue"
  context_after :: vm_context
  console_output :: "jsstring list"
  elapsed_ms :: nat

record engine =
  transformSync :: "jsstring \<Rightarrow> jsstring + jsstring"
  runInContext :: "jsstring \<Rightarrow> vm_context \<Rightarrow> vm_result"

record executor =
  the_context :: vm_context
  logBuffer :: "jsstring list"
  run_in_progress :: bool

text \<open>The three wrappers of \<open>executeStatement\<close>.\<close>

definition wrap_declaration :: "jsstring \<Rightarrow> jsstring list \<Rightarrow> jsstring" where
  "wrap_declaration transpiled varNames =
     str ''(async () => { '' @ transpiled @ str ''; return { '' @
     join (str '', '') varNames @ str '' }; })()''"

definition wrap_function :: "jsstring \<Rightarrow> jsstring \<Rightarrow> jsstring" where
  "wrap_function transpiled funcName =
     str ''(async () => { '' @ transpiled @ str ''; return '' @ funcName @ str ''; })()''"

definition wrap_statement :: "jsstring \<Rightarrow> jsstring" where
  "wrap_statement transpiled = str ''(async () => { '' @ transpiled @ str ''; })()''"

text \<open>
  \<open>result[name]\<close>: reading a property of \<open>undefined\<close> throws a TypeError, whose message
  is the platform's; a missing property reads as \<open>undefined\<close>.
\<close>

fun getProperty :: "jsvalue \<Rightarrow> jsstring \<Rightarrow> thrown + jsvalue" where
  "getProperty Undefined name = Inl (ErrorInstance (str ''undefined is not an object''))"
| "getProperty (Object kvs) name =
     Inr (case map_of kvs name of None \<Rightarrow> Undefined | Some v \<Rightarrow> v)"
| "getProperty _ name = Inr Undefined"

text \<open>The loop \<open>for (const name of varNames) context[name] = result[name]\<close>.\<close>

fun hoist :: "jsstring list \<Rightarrow> jsvalue \<Rightarrow> vm_context \<Rightarrow> thrown + vm_context" where
  "hoist [] result ctx = Inr ctx"
| "hoist (name # names) result ctx =
     (case getProperty result name of
        Inl e \<Rightarrow> Inl e
      | Inr v \<Rightarrow> hoist names result (ctx(name \<mapsto> v)))"

text \<open>
  The machine's effects on the executor: the context it leaves behind, and its console
  output, which the console's sink appends to \<open>logBuffer\<close>.
\<close>

definition after_vm :: "vm_result \<Rightarrow> executor \<Rightarrow> executor" where
  "after_vm r ex = ex\<lparr>the_context := context_after r, logBuffer := logBuffer ex @ console_output r\<rparr>"

text \<open>
  \<open>executeStatement\<close> returns the error, if any (\<open>{ error?: string }\<close>), with the
  executor afterwards and the time the awaited promise took.
\<close>

definition executeStatement ::
  "engine \<Rightarrow> jsstring \<Rightarrow> jsstring \<Rightarrow> executor \<Rightarrow> jsstring option \<times> executor \<times> nat"
where
  "executeStatement eng source transpiled ex =
     (let varNames = extractVariableNames source;
          funcName = extractFunctionName source
      in if length varNames > 0 then
           (let r = runInContext eng (wrap_declaration transpiled varNames) (the_context ex);
                ex1 = after_vm r ex
            in case completion r of
                 Inl e \<Rightarrow> (Some (formatError e), ex1, elapsed_ms r)
               | Inr result \<Rightarrow>
                   (case hoist varNames result (the_context ex1) of
                      Inl e \<Rightarrow> (Some (formatError e), ex1, elapsed_ms r)
                    | Inr ctx \<Rightarrow> (None, ex1\<lparr>the_context := ctx\<rparr>, elapsed_ms r)))
         else
           (case funcName of
              Some f \<Rightarrow>
                (let r = runInContext eng (wrap_function transpiled f) (the_context ex);
                     ex1 = after_vm r ex
                 in case completion r of
                      Inl e \<Rightarrow> (Some (formatError e), ex1, elapsed_ms r)
                    | Inr fn \<Rightarrow> (None, ex1\<lparr>the_context := (the_context ex1)(f \<mapsto> fn)\<rparr>, elapsed_ms r))
            | None \<Rightarrow>
                (let r = runInContext eng (wrap_statement transpiled) (the_context ex);
                     ex1 = after_vm r ex
                 in case completion r of
                      Inl e \<Rightarrow> (Some (formatError e), ex1, elapsed_ms r)
                    | Inr _ \<Rightarrow> (None, ex1, elapsed_ms r))))"

subsection \<open>A run\<close>

record ExecutionEvent =
  statement :: jsstring
  event_logs :: jsstring
  event_error :: "jsstring option"

text \<open>
  The local variables of the event generator, the events it has yielded, the executor,
  the time spent awaiting statements, and whether the generator has executed its
  \<open>return\<close>. \<open>prevChar\<close> is \<open>None\<close> for the initial empty string.
\<close>

record run_state =
  stmt_buffer :: jsstring
  prevChar :: "nat option"
  inLineComment :: bool
  allLogs :: jsstring
  finalError :: jsstring
  events :: "ExecutionEvent list"
  the_executor :: executor
  waited_ms :: nat
  returned :: bool

text \<open>A string is truthy when it is present and not empty.\<close>

definition truthy :: "jsstring option \<Rightarrow> bool" where
  "truthy x = (case x of None \<Rightarrow> False | Some s \<Rightarrow> length s > 0)"

text \<open>
  The body of \<open>if (transpileResult.success)\<close>, shared by the semicolon case and the
  flush at the end of the stream: clear the log buffer, execute, collect the logs and
  yield the event.
\<close>

definition execute_and_yield :: "engine \<Rightarrow> jsstring \<Rightarrow> jsstring \<Rightarrow> run_state \<Rightarrow> jsstring option \<times> run_state" where
  "execute_and_yield eng trimmed transpiled st =
     (let (err, ex1, dt) =
            executeStatement eng trimmed transpiled ((the_executor st)\<lparr>logBuffer := []\<rparr>);
          logs_now = concat (logBuffer ex1)
      in (err,
          st\<lparr>the_executor := ex1,
             allLogs := allLogs st @ logs_now,
             events := events st @
               [\<lparr>statement = trimmed, event_logs = logs_now, event_error = err\<rparr>],
             waited_ms := waited_ms st + dt\<rparr>))"

text \<open>The semicolon case of the character loop.\<close>

definition on_semicolon :: "engine \<Rightarrow> run_state \<Rightarrow> run_state" where
  "on_semicolon eng st =
     (let trimmed = trim (stmt_buffer st)
      in if length trimmed > 0 then
           (case transformSync eng trimmed of
              Inl _ \<Rightarrow> st
            | Inr transpiled \<Rightarrow>
                (let (err, st1) = execute_and_yield eng trimmed transpiled st
                 in if truthy err
                    then st1\<lparr>finalError := the err, returned := True\<rparr>
                    else st1\<lparr>stmt_buffer := []\<rparr>))
         else st)"

text \<open>
  One turn of \<open>for (const char of chunk)\<close>. The loop visits code points; a code point
  outside the basic plane adds its two code units to the buffer and is none of the
  characters compared here, exactly as when its units are visited one by one. After the
  generator has returned nothing more is read.
\<close>

definition on_char :: "engine \<Rightarrow> nat \<Rightarrow> run_state \<Rightarrow> run_state" where
  "on_char eng c st =
     (if returned st then st
      else
        let st1 = st\<lparr>stmt_buffer := stmt_buffer st @ [c]\<rparr>;
            st2 = (if c = cu CHR ''/'' \<and> prevChar st1 = Some (cu CHR ''/'')
                   then st1\<lparr>inLineComment := True\<rparr> else st1);
            st3 = (if c = 10 then st2\<lparr>inLineComment := False\<rparr> else st2);
            st4 = (if c = cu CHR '';'' \<and> \<not> inLineComment st3 then on_semicolon eng st3 else st3)
        in if returned st4 then st4 else st4\<lparr>prevChar := Some c\<rparr>)"

definition on_chunk :: "engine \<Rightarrow> jsstring \<Rightarrow> run_state \<Rightarrow> run_state" where
  "on_chunk eng chunk st = fold (on_char eng) chunk st"

definition on_chunks :: "engine \<Rightarrow> jsstring list \<Rightarrow> run_state \<Rightarrow> run_state" where
  "on_chunks eng chunks st = fold (on_chunk eng) chunks st"

text \<open>The remaining buffer after the stream has ended.\<close>

definition flush_buffer :: "engine \<Rightarrow> run_state \<Rightarrow> run_state" where
  "flush_buffer eng st =
     (if returned st then st
      else
        let trimmed = trim (stmt_buffer st)
        in if length trimmed > 0 \<and> finalError st = [] then
             (case transformSync eng trimmed of
                Inr transpiled \<Rightarrow>
                  (let (err, st1) = execute_and_yield eng trimmed transpiled st
                   in if truthy err then st1\<lparr>finalError := the err\<rparr> else st1)
              | Inl e \<Rightarrow>
                  (let msg = str ''Incomplete statement: '' @ e
                   in st\<lparr>finalError := msg,
                         events := events st @
                           [\<lparr>statement = trimmed, event_logs = [], event_error = Some msg\<rparr>]\<rparr>))
           else st)"

record StreamingVmRunResult =
  result_logs :: jsstring
  result_error :: jsstring

text \<open>
  \<open>run\<close>, with its event generator driven to the end: the result the promise resolves
  with, the events, the executor afterwards and the time the run spent awaiting its
  statements. A second run while one is in progress throws.
\<close>

record run_report =
  result :: StreamingVmRunResult
  run_events :: "ExecutionEvent list"
  executor_after :: executor
  run_ms :: nat

definition initial_run_state :: "executor \<Rightarrow> run_state" where
  "initial_run_state ex =
     \<lparr>stmt_buffer = [], prevChar = None, inLineComment = False, allLogs = [],
      finalError = [], events = [], the_executor = ex, waited_ms = 0, returned = False\<rparr>"

definition finish_run :: "run_state \<Rightarrow> run_report" where
  "finish_run st =
     \<lparr>result = \<lparr>result_logs = allLogs st, result_error = finalError st\<rparr>,
      run_events = events st,
      executor_after = (the_executor st)\<lparr>run_in_progress := False, logBuffer := []\<rparr>,
      run_ms = waited_ms st\<rparr>"

definition run :: "engine \<Rightarrow> jsstring list \<Rightarrow> executor \<Rightarrow> js_error + run_report" where
  "run eng chunks ex =
     (if run_in_progress ex then Inl (Error (str ''A run is already in progress.''))
      else
        let ex0 = ex\<lparr>run_in_progress := True, logBuffer := []\<rparr>
        in Inr (finish_run (flush_buffer eng (on_chunks eng chunks (initial_run_state ex0)))))"

text \<open>
  \<open>ExecutionManager.stop\<close> has an empty body; \<open>Runtime.stop\<close> sets the flag of the
  interaction loop and calls it.
\<close>

definition ExecutionManager_stop :: "executor \<Rightarrow> executor" where
  "ExecutionManager_stop ex = ex"

definition Runtime_stop :: "runtime \<times> executor \<Rightarrow> runtime \<times> executor" where
  "Runtime_stop s = ((fst s)\<lparr>stopped := True\<rparr>, ExecutionManager_stop (snd s))"

text \<open>
  A run during which \<open>Runtime.stop\<close> is called once, after the chunks \<open>before\<close> have
  been read and while the rest is still to come. The call acts on the executor of the
  run in progress.
\<close>

definition run_with_stop ::
  "engine \<Rightarrow> jsstring list \<Rightarrow> jsstring list \<Rightarrow> runtime \<times> executor \<Rightarrow>
   js_error + runtime \<times> run_report"
where
  "run_with_stop eng before rest s =
     (if run_in_progress (snd s) then Inl (Error (str ''A run is already in progress.''))
      else
        let ex0 = (snd s)\<lparr>run_in_progress := True, logBuffer := []\<rparr>;
            st1 = on_chunks eng before (initial_run_state ex0);
            (rt', ex') = Runtime_stop (fst s, the_executor st1);
            st2 = on_chunks eng rest (st1\<lparr>the_executor := ex'\<rparr>)
        in Inr (rt', finish_run (flush_buffer eng st2)))"

text \<open>
  While the generator has not returned, no event carries a truthy error; once it has
  returned, the last event carries the final error and no earlier event a truthy one.
\<close>

definition stops_at_error :: "run_state \<Rightarrow> bool" where
  "stops_at_error st \<longleftrightarrow>
     (if returned st
      then events st \<noteq> [] \<and> list_all (\<lambda>e. \<not> truthy (event_error e)) (butlast (events st)) \<and>
           event_error (last (events st)) = Some (finalError st) \<and> finalError st \<noteq> []
      else list_all (\<lambda>e. \<not> truthy (event_error e)) (events st) \<and> finalError st = [])"


section \<open>A model turn and the interaction (Runtime.consumeAssistantStream, newInteraction)\<close>

text \<open>
  An asynchronous function returns, throws, or never settles because it awaits a promise
  that never settles.
\<close>

datatype 'a outcome = Returns 'a | Throws js_error | Blocks

definition blocks :: "'a outcome \<Rightarrow> bool" where
  "blocks r = (case r of Blocks \<Rightarrow> True | _ \<Rightarrow> False)"

definition returns :: "'a outcome \<Rightarrow> bool" where
  "returns r = (case r of Returns _ \<Rightarrow> True | _ \<Rightarrow> False)"

subsection \<open>Transcripts\<close>

text \<open>
  \<open>normalizeResult\<close> trims both strings and keeps the non-empty ones.
  \<open>mergeTranscripts\<close> joins the truthy ones of the two \<open>logs\<close> (and of the two
  \<open>error\<close>) with a line feed and trims.
\<close>

definition nonEmpty :: "jsstring \<Rightarrow> jsstring option" where
  "nonEmpty s = (if length s > 0 then Some s else None)"

definition normalizeResult :: "StreamingVmRunResult \<Rightarrow> LlmLogsPayload" where
  "normalizeResult r =
     \<lparr>logs = nonEmpty (trim (result_logs r)), error = nonEmpty (trim (result_error r))\<rparr>"

definition filterBoolean :: "jsstring option list \<Rightarrow> jsstring list" where
  "filterBoolean xs = concat (map (\<lambda>x. case x of None \<Rightarrow> [] | Some s \<Rightarrow> if s = [] then [] else [s]) xs)"

definition mergeTranscripts :: "LlmLogsPayload \<Rightarrow> LlmLogsPayload \<Rightarrow> LlmLogsPayload" where
  "mergeTranscripts current nxt =
     \<lparr>logs = nonEmpty (trim (join [10] (filterBoolean [logs current, logs nxt]))),
      error = nonEmpty (trim (join [10] (filterBoolean [error current, error nxt])))\<rparr>"

subsection \<open>What a turn gets from outside\<close>

text \<open>
  The model's stream of a turn is bounded: it is a list of chunks and then ends. The
  other three come from outside the loop as well:

  \<^item> \<open>stop_after\<close>: \<open>stop()\<close> may be called while the turn runs. \<open>Some k\<close> says that it
    is called after the test \<open>if (this.stopped)\<close> at the end of the loop body has found
    the flag unset \<open>k\<close> times and before it is made again (after the loop, when the loop
    makes no more than \<open>k\<close> tests); \<open>None\<close> that it is not called during the turn.
  \<^item> \<open>target_known\<close>: what \<open>StreamedData.hasId\<close> answers for the data block with this
    index and identifier. The registry is filled by the code that runs in the virtual
    machine.
  \<^item> \<open>statements_settle\<close>: whether every promise that the run of the code block with
    this index awaits settles. \<open>executeStatement\<close> awaits the statement's promise and
    nothing else, so a statement such as \<open>await new Promise(() => {})\<close> is awaited for
    ever; \<open>runInContext\<close> (a parameter) describes the statements that settle.

  The model's stream does not throw. The frames a turn writes to the channel (the
  assistant message, the \<open>llm\<close> traces, the markdown and data chunks) are not part of
  the state: no test of the loop reads them.
\<close>

record turn_input =
  model_chunks :: "jsstring list"
  stop_after :: "nat option"
  target_known :: "nat \<Rightarrow> jsstring \<Rightarrow> bool"
  statements_settle :: "nat \<Rightarrow> bool"

type_synonym turn_env = "nat \<Rightarrow> llm_call \<Rightarrow> turn_input"

definition stop_seen :: "turn_input \<Rightarrow> nat \<Rightarrow> bool" where
  "stop_seen inp j = (case stop_after inp of None \<Rightarrow> False | Some k \<Rightarrow> k \<le> j)"

subsection \<open>The parser as the loop drives it\<close>

text \<open>
  \<open>parse\<close> is a generator: it runs when the loop asks for the next segment and is
  suspended at the \<open>yield\<close> of a segment while the loop body runs. When the loop is at
  its segment number \<open>k\<close> (counted from 0) the parser has done the events up to that
  \<open>yield\<close>, and if the loop is left there by \<open>break\<close> it does no more.
\<close>

fun events_until_yield :: "nat \<Rightarrow> parser_event list \<Rightarrow> parser_event list" where
  "events_until_yield k [] = []"
| "events_until_yield k (Yield seg # es) =
     Yield seg # (case k of 0 \<Rightarrow> [] | Suc k' \<Rightarrow> events_until_yield k' es)"
| "events_until_yield k (Push s t # es) = Push s t # events_until_yield k es"
| "events_until_yield k (Close s # es) = Close s # events_until_yield k es"

text \<open>
  A consumer of a token stream (\<open>sendMarkdown\<close>, \<open>sendStreamedData\<close> with the parsing
  that follows it in a \<open>try\<close>, the event generator of a run) reads until the stream is
  closed, so its promise settles only if the parser has closed the stream.
\<close>

definition stream_closed :: "parser_event list \<Rightarrow> nat \<Rightarrow> bool" where
  "stream_closed seen s \<longleftrightarrow> List.member seen (Close s)"

definition allSettled :: "parser_event list \<Rightarrow> nat list \<Rightarrow> bool" where
  "allSettled seen streams = list_all (stream_closed seen) streams"

subsection \<open>consumeAssistantStream\<close>

text \<open>
  The local variables of \<open>consumeAssistantStream\<close> and the executor. \<open>pendingStreams\<close>
  holds, for each promise, the token stream its consumer reads; \<open>pendingExecution\<close>
  the block index and the token stream of the run.
\<close>

record turn_state =
  turn_transcript :: LlmLogsPayload
  pendingStreams :: "nat list"
  pendingExecution :: "(nat \<times> nat) option"
  turn_executor :: executor

text \<open>
  \<open>await pendingExecution\<close>, with the events the parser has done by then: the run has
  read the tokens pushed so far; its result promise resolves when the stream has been
  closed and the awaited statements settle.
\<close>

definition await_execution ::
  "engine \<Rightarrow> turn_input \<Rightarrow> parser_event list \<Rightarrow> turn_state \<Rightarrow> turn_state outcome"
where
  "await_execution eng inp seen st =
     (case pendingExecution st of
        None \<Rightarrow> Returns st
      | Some (index, stream) \<Rightarrow>
          if stream_closed seen stream \<and> statements_settle inp index then
            (case run eng (stream_tokens stream seen) (turn_executor st) of
               Inl e \<Rightarrow> Throws e
             | Inr report \<Rightarrow>
                 Returns (st\<lparr>pendingExecution := None,
                   turn_transcript :=
                     mergeTranscripts (turn_transcript st) (normalizeResult (result report)),
                   turn_executor := executor_after report\<rparr>))
          else Blocks)"

text \<open>The body of the loop up to the test of the flag.\<close>

definition on_segment ::
  "engine \<Rightarrow> turn_input \<Rightarrow> parser_event list \<Rightarrow> ParserSegment \<Rightarrow> turn_state \<Rightarrow>
   turn_state outcome"
where
  "on_segment eng inp seen segment st =
     (case segment of
        MarkdownSegment tokens \<Rightarrow>
          Returns (st\<lparr>pendingStreams := pendingStreams st @ [tokens]\<rparr>)
      | AgentDataSegment index dataId jsonTokens \<Rightarrow>
          if \<not> target_known inp index dataId then Returns st
          else Returns (st\<lparr>pendingStreams := pendingStreams st @ [jsonTokens]\<rparr>)
      | AgentRunSegment index sourceTokens \<Rightarrow>
          (case await_execution eng inp seen st of
             Blocks \<Rightarrow> Blocks
           | Throws e \<Rightarrow> Throws e
           | Returns st1 \<Rightarrow>
               if pendingStreams st1 \<noteq> [] \<and> \<not> allSettled seen (pendingStreams st1) then Blocks
               else if run_in_progress (turn_executor st1)
               then Throws (Error (str ''A run is already in progress.''))
               else Returns (st1\<lparr>pendingStreams := [],
                               pendingExecution := Some (index, sourceTokens)\<rparr>)))"

text \<open>
  The loop \<open>for await (const segment of parse(...))\<close> from its segment number \<open>j\<close> on.
  It returns the events the parser has done when the loop is left, with the state.
\<close>

fun segment_loop ::
  "engine \<Rightarrow> turn_input \<Rightarrow> parser_event list \<Rightarrow> nat \<Rightarrow> ParserSegment list \<Rightarrow> turn_state \<Rightarrow>
   (parser_event list \<times> turn_state) outcome"
where
  "segment_loop eng inp all_events j [] st = Returns (all_events, st)"
| "segment_loop eng inp all_events j (segment # rest) st =
     (case on_segment eng inp (events_until_yield j all_events) segment st of
        Blocks \<Rightarrow> Blocks
      | Throws e \<Rightarrow> Throws e
      | Returns st1 \<Rightarrow>
          if stop_seen inp j then Returns (events_until_yield j all_events, st1)
          else segment_loop eng inp all_events (j + 1) rest st1)"

definition consumeAssistantStream ::
  "engine \<Rightarrow> turn_input \<Rightarrow> executor \<Rightarrow> (LlmLogsPayload \<times> executor) outcome"
where
  "consumeAssistantStream eng inp ex =
     (let all_events = parse (model_chunks inp);
          st0 = \<lparr>turn_transcript = \<lparr>logs = None, error = None\<rparr>, pendingStreams = [],
                 pendingExecution = None, turn_executor = ex\<rparr>
      in case segment_loop eng inp all_events 0 (yields all_events) st0 of
           Blocks \<Rightarrow> Blocks
         | Throws e \<Rightarrow> Throws e
         | Returns (seen, st1) \<Rightarrow>
             (case await_execution eng inp seen st1 of
                Blocks \<Rightarrow> Blocks
              | Throws e \<Rightarrow> Throws e
              | Returns st2 \<Rightarrow>
                  if pendingStreams st2 \<noteq> [] \<and> \<not> allSettled seen (pendingStreams st2)
                  then Blocks
                  else Returns (turn_transcript st2, turn_executor st2)))"

subsection \<open>newInteraction\<close>

text \<open>
  The \<open>while (!this.stopped)\<close> loop. The result says how the loop was left and gives
  the runtime then; a loop that is left has the executor of its last turn. A turn that
  never settles leaves the loop waiting in it.
\<close>

function turn_loop ::
  "engine \<Rightarrow> turn_env \<Rightarrow> jsstring \<Rightarrow> nat \<Rightarrow> LlmLogsPayload \<Rightarrow> runtime \<Rightarrow> executor \<Rightarrow>
   executor outcome \<times> runtime"
where
  "turn_loop eng env userQuery turn transcript rt ex =
     (if stopped rt then (Returns ex, rt)
      else
        let call = next_call rt userQuery turn transcript;
            inp = env turn call;
            rt1 = rt\<lparr>calls := calls rt @ [call], stopped := stop_after inp \<noteq> None\<rparr>
        in case consumeAssistantStream eng inp ex of
             Blocks \<Rightarrow> (Blocks, rt1)
           | Throws e \<Rightarrow> (Throws e, rt1)
           | Returns (t, ex1) \<Rightarrow>
               let rt2 = sendTraceIf exec_result (logs t) (sendTraceIf exec_error (error t) rt1)
               in if continue_after turn t
                  then turn_loop eng env userQuery (turn + 1) t rt2 ex1
                  else (Returns ex1, rt2))"
  by pat_completeness auto
termination
  by (relation "measure (\<lambda>(eng, env, q, turn, t, rt, ex). maxTurns - turn)")
     (auto simp: continue_after_def)

declare turn_loop.simps [simp del]

text \<open>
  \<open>newInteraction\<close>: a second concurrent start is rejected; otherwise the loop runs from
  turn 0 with an empty transcript. The \<open>finally\<close> block resets \<open>running\<close> when the loop
  is left; while a turn never settles it is not reached. \<open>Returns\<close> carries the
  interaction identifier.
\<close>

definition newInteraction ::
  "engine \<Rightarrow> turn_env \<Rightarrow> jsstring \<Rightarrow> jsstring \<Rightarrow> runtime \<Rightarrow> executor \<Rightarrow>
   (jsstring \<times> executor) outcome \<times> runtime"
where
  "newInteraction eng env interactionId userQuery rt ex =
     (if running rt then (Throws (Error (str ''An interaction is already running'')), rt)
      else
        let rt0 = sendTraceIf user (Some userQuery) (rt\<lparr>running := True, stopped := False\<rparr>);
            (how, rt1) = turn_loop eng env userQuery 0 \<lparr>logs = None, error = None\<rparr> rt0 ex
        in case how of
             Blocks \<Rightarrow> (Blocks, rt1)
           | Throws e \<Rightarrow> (Throws e, rt1\<lparr>running := False\<rparr>)
           | Returns ex1 \<Rightarrow> (Returns (interactionId, ex1), rt1\<lparr>running := False\<rparr>))"

section \<open>The token streams of a turn (invariants)\<close>

text \<open>
  When the parser yields a segment, the streams of the segments it yielded before are
  closed already: every yield of the event list has the \<open>Close\<close> of each earlier
  segment's stream in front of it.
\<close>

definition closes_before_yields :: "parser_event list \<Rightarrow> bool" where
  "closes_before_yields E \<longleftrightarrow>
     (\<forall>A seg B. E = A @ Yield seg # B \<longrightarrow>
        (\<forall>earlier \<in> set (yields A). Close (stream_of earlier) \<in> set A))"

text \<open>The streams the parser holds open: its markdown stream and the one of its block.\<close>

definition open_streams :: "SegmentParser \<Rightarrow> nat set" where
  "open_streams p =
     (case markdownStream p of None \<Rightarrow> {} | Some m \<Rightarrow> {m}) \<union>
     (case activeBlock p of None \<Rightarrow> {} | Some b \<Rightarrow> {block_stream b})"

text \<open>
  The invariant of the events done so far: every yielded stream is closed or still held
  open by the parser.
\<close>

definition turn_inv :: "parser_event list \<Rightarrow> SegmentParser \<Rightarrow> bool" where
  "turn_inv E p \<longleftrightarrow>
     parser_wf p \<and> streams_below (streams_created p) E \<and> closes_before_yields E \<and>
     (\<forall>seg \<in> set (yields E). Close (stream_of seg) \<in> set E \<or> stream_of seg \<in> open_streams p)"

text \<open>
  What one turn of the drain loop does to the open streams: it yields at most one
  segment, and closes every open stream before it does.
\<close>

definition step_ok ::
  "SegmentParser \<Rightarrow> parser_event list \<Rightarrow> SegmentParser \<Rightarrow> bool"
where
  "step_ok p e p' \<longleftrightarrow>
     (\<forall>s \<in> open_streams p. Close s \<in> set e \<or> s \<in> open_streams p') \<and>
     (\<forall>seg \<in> set (yields e). Close (stream_of seg) \<in> set e \<or> stream_of seg \<in> open_streams p') \<and>
     (yields e = [] \<or>
      (\<exists>c seg r. e = c @ Yield seg # r \<and> yields c = [] \<and> yields r = [] \<and>
         (\<forall>s \<in> open_streams p. Close s \<in> set c)))"

text \<open>A passthrough block writes to the markdown stream.\<close>

definition passthrough_ok :: "SegmentParser \<Rightarrow> bool" where
  "passthrough_ok p \<longleftrightarrow>
     (\<forall>s. activeBlock p = Some (passthrough_block s) \<longrightarrow> markdownStream p = Some s)"

definition streams_inv :: "parser_event list \<Rightarrow> SegmentParser \<Rightarrow> bool" where
  "streams_inv E p \<longleftrightarrow> turn_inv E p \<and> passthrough_ok p"

text \<open>The token streams that the promises held by \<open>consumeAssistantStream\<close> wait for.\<close>

definition pending :: "turn_state \<Rightarrow> nat set" where
  "pending st = set (pendingStreams st) \<union>
     (case pendingExecution st of None \<Rightarrow> {} | Some (index, stream) \<Rightarrow> {stream})"

section \<open>Concrete inputs\<close>

definition idle_runtime :: runtime where
  "idle_runtime =
     \<lparr>running = False, stopped = False, recordingPath = None, calls = [], traces = []\<rparr>"


text \<open>
  A source of identifiers that never repeats (\<open>u\<close>, \<open>uu\<close>, ...), a mount before the
  mount in question, other traffic before its submission, and a second submission and
  another mount after it.
\<close>

definition demo_uuid :: "nat \<Rightarrow> jsstring" where
  "demo_uuid k = replicate (Suc k) (cu CHR ''u'')"

definition demo_parts :: "jsstring mount_parts" where
  "demo_parts =
     \<lparr>part_uiSource = str ''() => null'', part_initialData = None,
      part_streamedDataId = None, part_outputSchema = str ''{}'',
      part_callbackNames = None\<rparr>"

definition demo_ops0 :: "jsstring host_op list" where
  "demo_ops0 = [Mount demo_parts]"

definition demo_ops1 :: "jsstring host_op list" where
  "demo_ops1 =
     [OnChannel (SendTrace (str ''hello'')),
      OnChannel (Incoming (ui_submit (demo_uuid 0) (str ''first mount''))),
      RandomUUID]"

definition demo_ops2 :: "jsstring host_op list" where
  "demo_ops2 =
     [OnChannel (Incoming (ui_submit (demo_uuid 1) (str ''again''))), Mount demo_parts]"

text \<open>
  The record \<open>{ n: "0" }\<close>, a proxy with the same properties, and a snapshot that copies
  every property as configurable and not writable into a non-extensible object.
\<close>

definition demo_record :: "unit obj" where
  "demo_record =
     \<lparr>props = [StrKey (str ''n'') \<mapsto>
        \<lparr>pvalue = JString (str ''0''), enumerable = True, writable = True,
         configurable = True\<rparr>],
      extensible = True\<rparr>"

definition demo_proxy :: "unit obj \<Rightarrow> unit obj" where
  "demo_proxy ob = ob\<lparr>extensible := True\<rparr>"

definition demo_snapshot :: "unit obj \<Rightarrow> unit obj" where
  "demo_snapshot ob =
     \<lparr>props = (\<lambda>k. map_option (\<lambda>d. d\<lparr>writable := False, configurable := True\<rparr>) (props ob k)),
      extensible = False\<rparr>"

definition demo_attack :: "unit obj_op list" where
  "demo_attack =
     [Assign DATA_ID (JString (str ''forged'')), Delete DATA_ID,
      Define DATA_ID \<lparr>pvalue = JString (str ''forged''), enumerable = True, writable = True,
                      configurable = True\<rparr>,
      Assign (StrKey (str ''n'')) (JString (str ''7''))]"

text \<open>
  A platform for the examples: the transpiler accepts every text and returns it
  unchanged, and the machine knows the statements below, each with the behaviour
  JavaScript gives it inside the wrapper. A \<open>var\<close> or \<open>const\<close> of a wrapper is local to
  the wrapper's function; reading a name that is not a global of the context throws a
  ReferenceError of the context's realm.
\<close>

definition settles :: "vm_context \<Rightarrow> thrown + jsvalue \<Rightarrow> jsstring list \<Rightarrow> nat \<Rightarrow> vm_result" where
  "settles ctx c out ms =
     \<lparr>completion = c, context_after = ctx, console_output = out, elapsed_ms = ms\<rparr>"

definition reference_error :: "jsstring \<Rightarrow> thrown" where
  "reference_error name =
     ObjectThrown (Some (name @ str '' is not defined''))
       (str ''ReferenceError: '' @ name @ str '' is not defined'')"

definition log_global :: "jsstring \<Rightarrow> vm_context \<Rightarrow> vm_result" where
  "log_global name ctx =
     (case ctx name of
        None \<Rightarrow> settles ctx (Inl (reference_error name)) [] 0
      | Some (Text s) \<Rightarrow> settles ctx (Inr Undefined) [s @ [10]] 0
      | Some _ \<Rightarrow> settles ctx (Inr Undefined) [str ''[value]'' @ [10]] 0)"

definition demo_vm :: "jsstring \<Rightarrow> vm_context \<Rightarrow> vm_result" where
  "demo_vm wrapped ctx =
     (if wrapped = wrap_statement (str ''throw \"\";'')
      then settles ctx (Inl (PrimitiveThrown [])) [] 0
      else if wrapped = wrap_statement (str ''console.log(\"never\");'')
      then settles ctx (Inr Undefined) [str ''never'' @ [10]] 0
      else if wrapped = wrap_declaration (str ''const a = \"p\", b = \"q\";'') [str ''a'']
      then settles ctx (Inr (Object [(str ''a'', Text (str ''p''))])) [] 0
      else if wrapped = wrap_statement (str ''console.log(a);'')
      then log_global (str ''a'') ctx
      else if wrapped = wrap_statement (str ''console.log(b);'')
      then log_global (str ''b'') ctx
      else if wrapped = wrap_statement (str ''var x = 1;'')
      then settles ctx (Inr Undefined) [] 0
      else if wrapped = wrap_statement (str ''console.log(x);'')
      then log_global (str ''x'') ctx
      else if wrapped =
        wrap_statement (str ''await new Promise((r) => setTimeout(r, 61000));'')
      then settles ctx (Inr Undefined) [] 61000
      else if wrapped = wrap_statement (str ''console.log(\"after\");'')
      then settles ctx (Inr Undefined) [str ''after'' @ [10]] 0
      else settles ctx (Inl (ObjectThrown (Some (str ''Unexpected token''))
                               (str ''SyntaxError: Unexpected token''))) [] 0)"

definition demo_engine :: engine where
  "demo_engine = \<lparr>transformSync = (\<lambda>source. Inr source), runInContext = demo_vm\<rparr>"

definition fresh_executor :: executor where
  "fresh_executor = \<lparr>the_context = Map.empty, logBuffer = [], run_in_progress = False\<rparr>"

text \<open>
  Three models. The first answers every turn with a code block that logs a line, so every
  turn has a transcript. The second answers with a code block whose statement awaits a
  promise that never settles. The third answers with a word of prose, and \<open>stop()\<close> is
  called before the loop has tested the flag.
\<close>

definition answer :: "jsstring list \<Rightarrow> turn_input" where
  "answer cs =
     \<lparr>model_chunks = cs, stop_after = None, target_known = (\<lambda>index ident. False),
      statements_settle = (\<lambda>index. True)\<rparr>"

definition chatty_env :: turn_env where
  "chatty_env =
     (\<lambda>turn call. answer [str ''```tsx agent.run\<newline>console.log(\"never\");\<newline>```''])"

definition pending_env :: turn_env where
  "pending_env =
     (\<lambda>turn call.
        (answer [str ''```tsx agent.run\<newline>await new Promise(() => {});\<newline>```''])
          \<lparr>statements_settle := (\<lambda>index. False)\<rparr>)"

definition stopping_env :: turn_env where
  "stopping_env = (\<lambda>turn call. (answer [str ''Hello''])\<lparr>stop_after := Some 0\<rparr>)"

section \<open>Properties of the channel\<close>

lemma send_fields [simp]:
  "pendingResults (send e ch) = pendingResults ch"
  "nextPromise (send e ch) = nextPromise ch"
  "resolutions (send e ch) = resolutions ch"
  by (simp_all add: send_def)

lemma log_fields [simp]:
  "pendingResults (log l ch) = pendingResults ch"
  "nextPromise (log l ch) = nextPromise ch"
  "resolutions (log l ch) = resolutions ch"
  by (simp_all add: log_def)

lemma sendTrace_fields [simp]:
  "pendingResults (sendTrace t ch) = pendingResults ch"
  "nextPromise (sendTrace t ch) = nextPromise ch"
  "resolutions (sendTrace t ch) = resolutions ch"
  by (simp_all add: sendTrace_def)

lemma resolved_with_cong:
  "resolutions ch' = resolutions ch \<Longrightarrow> resolved_with p ch' = resolved_with p ch"
  by (simp add: resolved_with_def)

lemma channel_wf_new: "channel_wf new_channel"
  by (simp add: channel_wf_def new_channel_def)

lemma channel_wf_step: "channel_wf ch \<Longrightarrow> channel_wf (channel_step mk x ch)"
proof (cases x)
  case (Incoming e)
  assume "channel_wf ch"
  then show ?thesis
    unfolding Incoming channel_wf_def
    by (cases e)
       (auto simp: dispatchClientEnvelope_def resolveUiSubmit_def split: option.splits)
qed (auto simp: channel_wf_def shutdown_def notifyClosed_def)

lemma channel_wf_sendMount: "channel_wf ch \<Longrightarrow> channel_wf (snd (sendMount event ch))"
  unfolding channel_wf_def by (auto simp: sendMount_def Let_def less_Suc_eq)

lemma sendMount_awaiting:
  assumes "channel_wf ch" and "sendMount event ch = (p, ch')"
  shows "awaiting (mountId event) p ch'"
proof -
  have p: "p = nextPromise ch"
    and ch': "ch' = (send (mount event) ch)\<lparr>pendingResults :=
                (pendingResults ch)(mountId event \<mapsto> nextPromise ch),
                nextPromise := nextPromise ch + 1\<rparr>"
    using assms(2) by (auto simp: sendMount_def Let_def)
  have fresh: "filter (\<lambda>r. fst r = nextPromise ch) (resolutions ch) = []"
    using assms(1) by (auto simp: channel_wf_def filter_empty_conv)
  have "channel_wf ch'"
    using channel_wf_sendMount [OF assms(1), of event] assms(2) by simp
  moreover have "\<forall>m'. m' \<noteq> mountId event \<longrightarrow> pendingResults ch' m' \<noteq> Some p"
    using assms(1) by (auto simp: p ch' channel_wf_def)
  ultimately show ?thesis
    using fresh by (simp add: awaiting_def p ch' resolved_with_def)
qed

lemma awaiting_sendMount:
  assumes "awaiting m p ch" and "mountId event \<noteq> m"
  shows "awaiting m p (snd (sendMount event ch))"
proof -
  have wf: "channel_wf (snd (sendMount event ch))"
    using assms(1) by (simp add: awaiting_def channel_wf_sendMount)
  have "p < nextPromise ch"
    using assms(1) by (auto simp: awaiting_def channel_wf_def)
  then show ?thesis
    using assms wf by (auto simp: awaiting_def sendMount_def Let_def resolved_with_def)
qed

lemma settled_sendMount:
  assumes "settled m p v ch" and "mountId event \<noteq> m"
  shows "settled m p v (snd (sendMount event ch))"
proof -
  have wf: "channel_wf (snd (sendMount event ch))"
    using assms(1) by (simp add: settled_def channel_wf_sendMount)
  show ?thesis
    using assms wf by (auto simp: settled_def sendMount_def Let_def resolved_with_def)
qed

lemma awaiting_step:
  assumes "awaiting m p ch" and "\<not> submits m (OnChannel x)"
  shows "awaiting m p (channel_step mk x ch)"
proof -
  have wf: "channel_wf (channel_step mk x ch)"
    using assms(1) by (simp add: awaiting_def channel_wf_step)
  show ?thesis
  proof (cases x)
    case (Incoming e)
    show ?thesis
    proof (cases e)
      case (ui_submit m' v)
      then have ne: "m' \<noteq> m"
        using assms(2) Incoming by (simp add: submits_def)
      show ?thesis
        using assms(1) wf ne unfolding Incoming ui_submit
        by (auto simp: awaiting_def dispatchClientEnvelope_def resolveUiSubmit_def
              resolved_with_def split: option.splits)
    next
      case (client_log l)
      then show ?thesis
        using assms(1) wf unfolding Incoming
        by (simp add: awaiting_def dispatchClientEnvelope_def resolved_with_def)
    next
      case (other_client z)
      then show ?thesis
        using assms(1) unfolding Incoming by (simp add: dispatchClientEnvelope_def)
    qed
  qed (use assms(1) wf in
        \<open>auto simp: awaiting_def resolved_with_def shutdown_def notifyClosed_def\<close>)
qed

lemma settled_step:
  assumes "settled m p v ch"
  shows "settled m p v (channel_step mk x ch)"
proof -
  have wf: "channel_wf (channel_step mk x ch)"
    using assms(1) by (simp add: settled_def channel_wf_step)
  show ?thesis
  proof (cases x)
    case (Incoming e)
    show ?thesis
    proof (cases e)
      case (ui_submit m' w)
      show ?thesis
        using assms(1) wf unfolding Incoming ui_submit
        by (auto simp: settled_def dispatchClientEnvelope_def resolveUiSubmit_def
              resolved_with_def split: option.splits)
    next
      case (client_log l)
      then show ?thesis
        using assms(1) wf unfolding Incoming
        by (simp add: settled_def dispatchClientEnvelope_def resolved_with_def)
    next
      case (other_client z)
      then show ?thesis
        using assms(1) unfolding Incoming by (simp add: dispatchClientEnvelope_def)
    qed
  qed (use assms(1) wf in
        \<open>auto simp: settled_def resolved_with_def shutdown_def notifyClosed_def\<close>)
qed

subsection \<open>Mount identifiers are never drawn twice\<close>

lemma mount_fields:
  "fst (fst (MountManager_mount uuid parts h)) = uuid (uuids_drawn h)"
  "host_channel (snd (MountManager_mount uuid parts h)) =
     snd (sendMount
       \<lparr>mountId = uuid (uuids_drawn h), uiSource = part_uiSource parts,
        initialData = part_initialData parts, streamedDataId = part_streamedDataId parts,
        outputSchema = part_outputSchema parts, callbackNames = part_callbackNames parts\<rparr>
       (host_channel h))"
  "snd (fst (MountManager_mount uuid parts h)) =
     fst (sendMount
       \<lparr>mountId = uuid (uuids_drawn h), uiSource = part_uiSource parts,
        initialData = part_initialData parts, streamedDataId = part_streamedDataId parts,
        outputSchema = part_outputSchema parts, callbackNames = part_callbackNames parts\<rparr>
       (host_channel h))"
  "uuids_drawn (snd (MountManager_mount uuid parts h)) = uuids_drawn h + 1"
  by (simp_all add: MountManager_mount_def Let_def case_prod_beta)

lemma drawn_step: "drawn uuid m h \<Longrightarrow> drawn uuid m (host_step uuid mk x h)"
  by (cases x) (auto simp: drawn_def mount_fields less_Suc_eq)

lemma drawn_fresh:
  assumes "inj uuid" and "drawn uuid m h"
  shows "uuid (uuids_drawn h) \<noteq> m"
proof -
  obtain k where "k < uuids_drawn h" "m = uuid k"
    using assms(2) by (auto simp: drawn_def)
  then show ?thesis
    using assms(1) by (auto simp: inj_def)
qed

lemma channel_wf_host_step:
  "channel_wf (host_channel h) \<Longrightarrow> channel_wf (host_channel (host_step uuid mk x h))"
  by (cases x) (simp_all add: mount_fields channel_wf_sendMount channel_wf_step)

lemma channel_wf_host_run:
  "channel_wf (host_channel h) \<Longrightarrow> channel_wf (host_channel (host_run uuid mk xs h))"
  by (induction xs arbitrary: h) (simp_all add: channel_wf_host_step)

lemma awaiting_host_step:
  assumes "inj uuid" and "drawn uuid m h" and "awaiting m p (host_channel h)"
    and "\<not> submits m x"
  shows "awaiting m p (host_channel (host_step uuid mk x h))"
proof (cases x)
  case (Mount parts)
  show ?thesis
    unfolding Mount using drawn_fresh [OF assms(1,2)] assms(3)
    by (simp add: mount_fields awaiting_sendMount)
next
  case RandomUUID
  then show ?thesis using assms(3) by simp
next
  case (OnChannel y)
  then show ?thesis using assms(3,4) by (simp add: awaiting_step)
qed

lemma awaiting_host_run:
  assumes "inj uuid"
  shows "drawn uuid m h \<Longrightarrow> awaiting m p (host_channel h) \<Longrightarrow>
         \<forall>x \<in> set xs. \<not> submits m x \<Longrightarrow>
         awaiting m p (host_channel (host_run uuid mk xs h)) \<and>
         drawn uuid m (host_run uuid mk xs h)"
proof (induction xs arbitrary: h)
  case Nil
  then show ?case by simp
next
  case (Cons x xs)
  have "drawn uuid m (host_step uuid mk x h)"
    using Cons.prems(1) by (rule drawn_step)
  moreover have "awaiting m p (host_channel (host_step uuid mk x h))"
    using Cons.prems by (intro awaiting_host_step [OF assms]) simp_all
  ultimately show ?case
    using Cons.IH [of "host_step uuid mk x h"] Cons.prems(3) by simp
qed

lemma settled_host_step:
  assumes "inj uuid" and "drawn uuid m h" and "settled m p v (host_channel h)"
  shows "settled m p v (host_channel (host_step uuid mk x h))"
proof (cases x)
  case (Mount parts)
  show ?thesis
    unfolding Mount using drawn_fresh [OF assms(1,2)] assms(3)
    by (simp add: mount_fields settled_sendMount)
next
  case RandomUUID
  then show ?thesis using assms(3) by simp
next
  case (OnChannel y)
  then show ?thesis using assms(3) by (simp add: settled_step)
qed

lemma settled_host_run:
  assumes "inj uuid"
  shows "drawn uuid m h \<Longrightarrow> settled m p v (host_channel h) \<Longrightarrow>
         settled m p v (host_channel (host_run uuid mk xs h))"
proof (induction xs arbitrary: h)
  case Nil
  then show ?case by simp
next
  case (Cons x xs)
  have "drawn uuid m (host_step uuid mk x h)"
    using Cons.prems(1) by (rule drawn_step)
  moreover have "settled m p v (host_channel (host_step uuid mk x h))"
    using Cons.prems by (intro settled_host_step [OF assms]) simp_all
  ultimately show ?case
    using Cons.IH [of "host_step uuid mk x h"] by simp
qed

lemma awaiting_submit:
  assumes "awaiting m p ch"
  shows "settled m p v (channel_step mk (Incoming (ui_submit m v)) ch)"
proof -
  have wf: "channel_wf (dispatchClientEnvelope mk (ui_submit m v) ch)"
    using assms channel_wf_step [of ch mk "Incoming (ui_submit m v)"]
    by (simp add: awaiting_def)
  have "p < nextPromise ch"
    using assms by (auto simp: awaiting_def channel_wf_def)
  then show ?thesis
    using assms wf
    by (auto simp: awaiting_def settled_def dispatchClientEnvelope_def resolveUiSubmit_def
          resolved_with_def)
qed

lemma unknown_submit_frames:
  assumes "pendingResults ch m = None"
  shows "frames (channel_step mk (Incoming (ui_submit m w)) ch) =
           (if closed ch \<or> \<not> socket_up ch then frames ch
            else frames ch @ [unknown_ui_submit_frame mk m])"
    and "resolutions (channel_step mk (Incoming (ui_submit m w)) ch) = resolutions ch"
    and "pendingResults (channel_step mk (Incoming (ui_submit m w)) ch) = pendingResults ch"
  using assms
  by (simp_all add: dispatchClientEnvelope_def resolveUiSubmit_def log_def send_def
        unknown_ui_submit_line_def unknown_ui_submit_frame_def)

text \<open>
  C9, amended. Take any reachable host, mount on it (the mount identifier comes from
  \<open>randomUUID\<close>, which never returns a value twice), and let anything happen. Before the
  first \<open>ui_submit\<close> for the identifier the promise of the handle is unresolved; from the
  first one on its resolve function has been called exactly once, with the submitted
  value. Any further \<open>ui_submit\<close> for the identifier resolves nothing and stores nothing;
  on an open channel with a working socket it sends exactly one frame, the log line with
  the code \<open>unknown_ui_submit\<close>, and on a closed channel or a failing socket it sends
  nothing.
\<close>

theorem mount_result_exactly_once:
  assumes "inj uuid"
    and "h0 = host_run uuid mk ops0 new_host"
    and "MountManager_mount uuid parts h0 = ((m, p), h1)"
    and "\<forall>x \<in> set ops1. \<not> submits m x"
    and "h2 = host_run uuid mk ops1 h1"
    and "h3 = host_run uuid mk ops2 (host_step uuid mk (OnChannel (Incoming (ui_submit m v))) h2)"
    and "h4 = host_step uuid mk (OnChannel (Incoming (ui_submit m w))) h3"
  shows "resolved_with p (host_channel h2) = [] \<and>
         resolved_with p (host_channel h3) = [v] \<and>
         resolved_with p (host_channel h4) = [v] \<and>
         resolutions (host_channel h4) = resolutions (host_channel h3) \<and>
         pendingResults (host_channel h4) = pendingResults (host_channel h3) \<and>
         frames (host_channel h4) =
           (if closed (host_channel h3) \<or> \<not> socket_up (host_channel h3)
            then frames (host_channel h3)
            else frames (host_channel h3) @ [unknown_ui_submit_frame mk m])"
proof -
  have wf0: "channel_wf (host_channel h0)"
    unfolding assms(2) by (rule channel_wf_host_run) (simp add: new_host_def channel_wf_new)
  have m: "m = uuid (uuids_drawn h0)" and h1: "h1 = snd (MountManager_mount uuid parts h0)"
    and p: "p = snd (fst (MountManager_mount uuid parts h0))"
    using assms(3) mount_fields(1) [of uuid parts h0] by simp_all
  have d1: "drawn uuid m h1"
    by (simp add: drawn_def h1 m mount_fields) (use lessI in blast)
  have a1: "awaiting m p (host_channel h1)"
    unfolding h1 p mount_fields m
    by (rule sendMount_awaiting [OF wf0, where event = "\<lparr>mountId = uuid (uuids_drawn h0),
          uiSource = part_uiSource parts, initialData = part_initialData parts,
          streamedDataId = part_streamedDataId parts, outputSchema = part_outputSchema parts,
          callbackNames = part_callbackNames parts\<rparr>", simplified]) simp
  have a2: "awaiting m p (host_channel h2)" and d2: "drawn uuid m h2"
    using awaiting_host_run [OF assms(1) d1 a1 assms(4), of mk] by (simp_all add: assms(5))
  define h2' where "h2' = host_step uuid mk (OnChannel (Incoming (ui_submit m v))) h2"
  have s2: "settled m p v (host_channel h2')"
    using awaiting_submit [OF a2, of v mk] by (simp add: h2'_def)
  have d2': "drawn uuid m h2'"
    unfolding h2'_def using d2 by (rule drawn_step)
  have s3: "settled m p v (host_channel h3)"
    unfolding assms(6) h2'_def [symmetric] by (rule settled_host_run [OF assms(1) d2' s2])
  then have none: "pendingResults (host_channel h3) m = None"
    by (simp add: settled_def)
  have h4: "host_channel h4 = channel_step mk (Incoming (ui_submit m w)) (host_channel h3)"
    by (simp add: assms(7))
  have r4: "resolved_with p (host_channel h4) = resolved_with p (host_channel h3)"
    unfolding h4 by (rule resolved_with_cong) (rule unknown_submit_frames(2) [OF none])
  show ?thesis
    using a2 s3 r4 unknown_submit_frames [OF none, of mk w]
    by (simp add: awaiting_def settled_def h4)
qed

theorem mount_result_exactly_once_witness:
  "resolved_with 1 (host_channel (host_run demo_uuid (\<lambda>m. m) demo_ops1
      (snd (MountManager_mount demo_uuid demo_parts (host_run demo_uuid (\<lambda>m. m) demo_ops0 new_host))))) = [] \<and>
   resolved_with 1 (host_channel (host_run demo_uuid (\<lambda>m. m) demo_ops2
      (host_step demo_uuid (\<lambda>m. m) (OnChannel (Incoming (ui_submit (demo_uuid 1) (str ''yes''))))
        (host_run demo_uuid (\<lambda>m. m) demo_ops1
          (snd (MountManager_mount demo_uuid demo_parts
            (host_run demo_uuid (\<lambda>m. m) demo_ops0 new_host))))))) = [str ''yes'']"
proof -
  have i: "inj demo_uuid"
    by (auto simp: inj_def demo_uuid_def dest: arg_cong [where f = length])
  have h3: "MountManager_mount demo_uuid demo_parts (host_run demo_uuid (\<lambda>m. m) demo_ops0 new_host)
              = ((demo_uuid 1, 1),
                 snd (MountManager_mount demo_uuid demo_parts (host_run demo_uuid (\<lambda>m. m) demo_ops0 new_host)))"
    by (simp add: MountManager_mount_def sendMount_def Let_def new_host_def new_channel_def send_def
          demo_ops0_def)
  have h4: "\<forall>x \<in> set demo_ops1. \<not> submits (demo_uuid 1) x"
    by (simp add: demo_ops1_def submits_def demo_uuid_def str_def)
  show ?thesis
    using mount_result_exactly_once [where mk = "\<lambda>m. m" and v = "str ''yes''"
        and w = "str ''no''" and ?ops2.0 = demo_ops2, OF i refl h3 h4 refl refl refl]
    by simp
qed

text \<open>
  C9 as stated fails on a closed channel: the mount of \<open>demo_uuid 0\<close> is submitted,
  the channel is shut down, and the second \<open>ui_submit\<close> for the identifier sends no
  frame, so no line with the code \<open>unknown_ui_submit\<close> is logged. On the open channel
  the same submission sends the line.
\<close>

theorem closed_channel_logs_nothing:
  "frames (host_channel (host_run demo_uuid (\<lambda>m. m)
      [Mount demo_parts,
       OnChannel (Incoming (ui_submit (demo_uuid 0) (str ''yes''))),
       OnChannel Shutdown,
       OnChannel (Incoming (ui_submit (demo_uuid 0) (str ''again'')))] new_host))
     = [mount
          \<lparr>mountId = demo_uuid 0, uiSource = str ''() => null'', initialData = None,
           streamedDataId = None, outputSchema = str ''{}'', callbackNames = None\<rparr>] \<and>
   frames (host_channel (host_run demo_uuid (\<lambda>m. m)
      [Mount demo_parts,
       OnChannel (Incoming (ui_submit (demo_uuid 0) (str ''yes''))),
       OnChannel (Incoming (ui_submit (demo_uuid 0) (str ''again'')))] new_host))
     = [mount
          \<lparr>mountId = demo_uuid 0, uiSource = str ''() => null'', initialData = None,
           streamedDataId = None, outputSchema = str ''{}'', callbackNames = None\<rparr>,
        unknown_ui_submit_frame (\<lambda>m. m) (demo_uuid 0)]"
  by code_simp

section \<open>Properties of reactive records\<close>

lemma Data_new_ok:
  assumes "props (proxy v) DATA_ID = None" and "extensible (proxy v)"
  shows "Data_new proxy uuid v
           = Inr ((proxy v)\<lparr>props := (props (proxy v))(DATA_ID \<mapsto> identity_desc uuid)\<rparr>)"
  using assms by (simp add: Data_new_def Let_def defineProperty_def identity_desc_def)

lemma obj_step_identity:
  assumes "props ob DATA_ID = Some (identity_desc uuid)"
  shows "props (obj_step x ob) DATA_ID = Some (identity_desc uuid)"
proof (cases x)
  case (Assign k v)
  then show ?thesis
    using assms
    by (cases "k = DATA_ID")
       (auto simp: keep_def setProperty_def identity_desc_def split: option.splits)
next
  case (Delete k)
  then show ?thesis
    using assms
    by (cases "k = DATA_ID")
       (auto simp: keep_def deleteProperty_def identity_desc_def split: option.splits)
next
  case (Define k d)
  then show ?thesis
    using assms
    by (cases "k = DATA_ID")
       (auto simp: keep_def defineProperty_def identity_desc_def split: option.splits)
next
  case PreventExtensions
  then show ?thesis using assms by simp
qed

lemma obj_run_identity:
  "props ob DATA_ID = Some (identity_desc uuid) \<Longrightarrow>
   props (obj_run xs ob) DATA_ID = Some (identity_desc uuid)"
  by (induction xs arbitrary: ob) (simp_all add: obj_step_identity)

lemma getId_identity:
  "props ob DATA_ID = Some (identity_desc uuid) \<Longrightarrow> Data_getId ob = Inr uuid"
  by (simp add: Data_getId_def identity_desc_def)

lemma Data_snapshot_strips:
  assumes "\<forall>q. props (snapshot d) DATA_ID = Some q \<longrightarrow> configurable q"
  shows "\<exists>c. Data_snapshot snapshot d = Inr c \<and> props c DATA_ID = None \<and>
             (\<forall>k. k \<noteq> DATA_ID \<longrightarrow> props c k = props (snapshot d) k)"
  using assms
  by (auto simp: Data_snapshot_def Let_def deleteProperty_def split: option.splits)

text \<open>
  C8. If the proxy of the plain object \<open>v\<close> is extensible and has no identity property
  yet, then \<open>new Data(v)\<close> succeeds and its identity property holds the identifier and
  is not enumerable, not writable and not configurable; \<open>Data.getId\<close> returns that
  identifier after any sequence of assignments, deletions, property definitions and
  \<open>preventExtensions\<close> on the record; and whenever the library's snapshot has its
  identity property (if any) configurable, \<open>Data.snapshot\<close> returns that copy without
  the identity key and with every other property untouched.
\<close>

theorem data_identity_invariants:
  assumes "props (proxy v) DATA_ID = None" and "extensible (proxy v)"
  shows "\<exists>d. Data_new proxy uuid v = Inr d \<and>
           props d DATA_ID =
             Some \<lparr>pvalue = JString uuid, enumerable = False, writable = False,
                   configurable = False\<rparr> \<and>
           (\<forall>xs. Data_getId (obj_run xs d) = Inr uuid) \<and>
           (\<forall>xs. (\<forall>q. props (snapshot (obj_run xs d)) DATA_ID = Some q \<longrightarrow> configurable q) \<longrightarrow>
              (\<exists>c. Data_snapshot snapshot (obj_run xs d) = Inr c \<and> props c DATA_ID = None \<and>
                   (\<forall>k. k \<noteq> DATA_ID \<longrightarrow> props c k = props (snapshot (obj_run xs d)) k)))"
proof -
  define d where "d = (proxy v)\<lparr>props := (props (proxy v))(DATA_ID \<mapsto> identity_desc uuid)\<rparr>"
  have new: "Data_new proxy uuid v = Inr d"
    unfolding d_def using assms by (rule Data_new_ok)
  have idp: "props d DATA_ID = Some (identity_desc uuid)"
    by (simp add: d_def)
  have stable: "\<forall>xs. Data_getId (obj_run xs d) = Inr uuid"
    using idp by (simp add: obj_run_identity getId_identity)
  have snap: "\<forall>xs. (\<forall>q. props (snapshot (obj_run xs d)) DATA_ID = Some q \<longrightarrow> configurable q) \<longrightarrow>
              (\<exists>c. Data_snapshot snapshot (obj_run xs d) = Inr c \<and> props c DATA_ID = None \<and>
                   (\<forall>k. k \<noteq> DATA_ID \<longrightarrow> props c k = props (snapshot (obj_run xs d)) k))"
    using Data_snapshot_strips by blast
  show ?thesis
    using new idp stable snap by (simp add: identity_desc_def)
qed

theorem data_identity_invariants_witness:
  "\<exists>d. Data_new demo_proxy (str ''id-1'') demo_record = Inr d \<and>
       Data_getId (obj_run demo_attack d) = Inr (str ''id-1'') \<and>
       (\<exists>c. Data_snapshot demo_snapshot (obj_run demo_attack d) = Inr c \<and>
            props c DATA_ID = None)"
proof -
  have h1: "props (demo_proxy demo_record) DATA_ID = None"
    by (simp add: demo_proxy_def demo_record_def)
  have h2: "extensible (demo_proxy demo_record)"
    by (simp add: demo_proxy_def)
  have h3: "\<forall>q. props (demo_snapshot ob) DATA_ID = Some q \<longrightarrow> configurable q" for ob
    by (auto simp: demo_snapshot_def)
  show ?thesis
    using data_identity_invariants [where proxy = demo_proxy and v = demo_record
        and uuid = "str ''id-1''" and snapshot = demo_snapshot, OF h1 h2] h3
    by blast
qed


section \<open>Properties of the streaming interpreter\<close>

lemma on_char_returned: "returned st \<Longrightarrow> on_char eng c st = st"
  by (simp add: on_char_def)

lemma on_chunk_returned: "returned st \<Longrightarrow> on_chunk eng chunk st = st"
  unfolding on_chunk_def by (induction chunk) (simp_all add: on_char_returned)

lemma on_chunks_returned: "returned st \<Longrightarrow> on_chunks eng chunks st = st"
  unfolding on_chunks_def by (induction chunks) (simp_all add: on_chunk_returned)

lemma execute_and_yield_events:
  "execute_and_yield eng t transpiled st = (err, st1) \<Longrightarrow>
   events st1 = events st @ [\<lparr>statement = t, event_logs = concat (logBuffer (the_executor st1)),
                               event_error = err\<rparr>] \<and>
   returned st1 = returned st \<and> finalError st1 = finalError st"
  by (auto simp: execute_and_yield_def Let_def split: prod.splits)

lemma stops_on_semicolon:
  assumes "stops_at_error st" and "\<not> returned st"
  shows "stops_at_error (on_semicolon eng st)"
proof (cases "length (trim (stmt_buffer st)) > 0")
  case False
  then show ?thesis using assms by (simp add: on_semicolon_def)
next
  case True
  show ?thesis
  proof (cases "transformSync eng (trim (stmt_buffer st))")
    case (Inl e)
    then show ?thesis using assms True by (simp add: on_semicolon_def Let_def)
  next
    case (Inr transpiled)
    obtain err st1 where ey: "execute_and_yield eng (trim (stmt_buffer st)) transpiled st = (err, st1)"
      by (cases "execute_and_yield eng (trim (stmt_buffer st)) transpiled st")
    note ev = execute_and_yield_events [OF ey]
    show ?thesis
    proof (cases "truthy err")
      case True
      then obtain e where e: "err = Some e" "e \<noteq> []"
        by (auto simp: truthy_def split: option.splits)
      have "on_semicolon eng st = st1\<lparr>finalError := e, returned := True\<rparr>"
        using ey Inr \<open>length (trim (stmt_buffer st)) > 0\<close> True e
        by (simp add: on_semicolon_def Let_def)
      then show ?thesis
        using assms ev e by (simp add: stops_at_error_def)
    next
      case False
      have "on_semicolon eng st = st1\<lparr>stmt_buffer := []\<rparr>"
        using ey Inr \<open>length (trim (stmt_buffer st)) > 0\<close> False
        by (simp add: on_semicolon_def Let_def)
      then show ?thesis
        using assms ev False by (simp add: stops_at_error_def)
    qed
  qed
qed

lemma stops_on_char: "stops_at_error st \<Longrightarrow> stops_at_error (on_char eng c st)"
proof (cases "returned st")
  case True
  assume "stops_at_error st"
  then show ?thesis using True by (simp add: on_char_returned)
next
  case False
  assume inv: "stops_at_error st"
  define st3 where "st3 =
    (let st1 = st\<lparr>stmt_buffer := stmt_buffer st @ [c]\<rparr>;
         st2 = (if c = cu CHR ''/'' \<and> prevChar st1 = Some (cu CHR ''/'')
                then st1\<lparr>inLineComment := True\<rparr> else st1)
     in (if c = 10 then st2\<lparr>inLineComment := False\<rparr> else st2))"
  have st3: "stops_at_error st3" "\<not> returned st3"
    using inv False by (simp_all add: st3_def stops_at_error_def Let_def)
  define st4 where "st4 = (if c = cu CHR '';'' \<and> \<not> inLineComment st3 then on_semicolon eng st3 else st3)"
  have st4: "stops_at_error st4"
    using st3 stops_on_semicolon [of st3 eng] by (simp add: st4_def)
  have "on_char eng c st = (if returned st4 then st4 else st4\<lparr>prevChar := Some c\<rparr>)"
    using False by (simp add: on_char_def st4_def st3_def Let_def)
  then show ?thesis
    using st4 by (simp add: stops_at_error_def)
qed

lemma stops_on_chunk: "stops_at_error st \<Longrightarrow> stops_at_error (on_chunk eng chunk st)"
  unfolding on_chunk_def by (induction chunk arbitrary: st) (simp_all add: stops_on_char)

lemma stops_on_chunks: "stops_at_error st \<Longrightarrow> stops_at_error (on_chunks eng chunks st)"
  unfolding on_chunks_def by (induction chunks arbitrary: st) (simp_all add: stops_on_chunk)

text \<open>After the flush the same holds with "returned" read as "the final error is set".\<close>

lemma stops_after_flush:
  assumes "stops_at_error st"
  shows "list_all (\<lambda>e. \<not> truthy (event_error e)) (butlast (events (flush_buffer eng st))) \<and>
         (if finalError (flush_buffer eng st) = []
          then list_all (\<lambda>e. \<not> truthy (event_error e)) (events (flush_buffer eng st))
          else events (flush_buffer eng st) \<noteq> [] \<and>
               event_error (last (events (flush_buffer eng st)))
                 = Some (finalError (flush_buffer eng st)))"
proof (cases "returned st")
  case True
  then show ?thesis using assms by (simp add: flush_buffer_def stops_at_error_def)
next
  case False
  then have pre: "list_all (\<lambda>e. \<not> truthy (event_error e)) (events st)" "finalError st = []"
    using assms by (simp_all add: stops_at_error_def)
  have bl: "list_all (\<lambda>e. \<not> truthy (event_error e)) (butlast (events st))"
    using pre(1) by (auto simp: list_all_iff dest: in_set_butlastD)
  show ?thesis
  proof (cases "length (trim (stmt_buffer st)) > 0")
    case no: False
    then show ?thesis using False pre bl by (simp add: flush_buffer_def)
  next
    case True
    show ?thesis
    proof (cases "transformSync eng (trim (stmt_buffer st))")
      case (Inl e)
      then show ?thesis
        using False True pre by (simp add: flush_buffer_def Let_def str_def)
    next
      case (Inr transpiled)
      obtain err st1 where ey: "execute_and_yield eng (trim (stmt_buffer st)) transpiled st = (err, st1)"
        by (cases "execute_and_yield eng (trim (stmt_buffer st)) transpiled st")
      note ev = execute_and_yield_events [OF ey]
      have fl: "flush_buffer eng st = (if truthy err then st1\<lparr>finalError := the err\<rparr> else st1)"
        using False True pre Inr ey by (simp add: flush_buffer_def Let_def)
      show ?thesis
      proof (cases "truthy err")
        case t: True
        then obtain e where e: "err = Some e" "e \<noteq> []"
          by (auto simp: truthy_def split: option.splits)
        show ?thesis using fl t e ev pre by simp
      next
        case f: False
        show ?thesis using fl f ev pre by simp
      qed
    qed
  qed
qed

lemma initial_stops: "stops_at_error (initial_run_state ex)"
  by (simp add: stops_at_error_def initial_run_state_def)

text \<open>
  An execution error with a non-empty message ends the run: it belongs to the last event,
  and the run resolves with it.
\<close>

lemma run_stops_at_first_error:
  assumes "run eng chunks ex = Inr r"
  shows "list_all (\<lambda>e. \<not> truthy (event_error e)) (butlast (run_events r)) \<and>
         (if result_error (result r) = []
          then list_all (\<lambda>e. \<not> truthy (event_error e)) (run_events r)
          else run_events r \<noteq> [] \<and>
               event_error (last (run_events r)) = Some (result_error (result r)))"
proof -
  define st where
    "st = on_chunks eng chunks (initial_run_state (ex\<lparr>run_in_progress := True, logBuffer := []\<rparr>))"
  have r: "r = finish_run (flush_buffer eng st)"
    using assms by (auto simp: run_def Let_def st_def split: if_splits)
  have "stops_at_error st"
    unfolding st_def by (rule stops_on_chunks) (rule initial_stops)
  from stops_after_flush [OF this, of eng] show ?thesis
    by (simp add: r finish_run_def)
qed


text \<open>
  C5. The claim fails for an error whose message is empty. The statement \<open>throw "";\<close>
  rejects, \<open>formatError\<close> turns the thrown empty string into the error \<open>""\<close>, the test
  \<open>if (execResult.error)\<close> takes that for no error, and the next statement runs: the
  run resolves with the log of the second statement and an empty error.
\<close>

theorem empty_error_message_does_not_stop:
  "map (\<lambda>e. (statement e, event_logs e, event_error e))
     (run_events (projr (run demo_engine [str ''throw \"\";console.log(\"never\");'']
        fresh_executor))) =
     [(str ''throw \"\";'', [], Some []),
      (str ''console.log(\"never\");'', str ''never'' @ [10], None)] \<and>
   result (projr (run demo_engine [str ''throw \"\";console.log(\"never\");''] fresh_executor))
     = \<lparr>result_logs = str ''never'' @ [10], result_error = []\<rparr>"
  by code_simp

text \<open>
  C4. The claim fails for a declaration with two declarators. Of
  \<open>const a = "p", b = "q";\<close> only \<open>a\<close> is extracted and written to the context; a later
  statement reads \<open>a\<close> but fails on \<open>b\<close>, which is not a global of the context after
  the run.
\<close>

theorem second_declarator_not_hoisted:
  "extractVariableNames (str ''const a = \"p\", b = \"q\";'') = [str ''a''] \<and>
   map (\<lambda>e. (statement e, event_logs e, event_error e))
     (run_events (projr (run demo_engine
        [str ''const a = \"p\", b = \"q\";console.log(a);console.log(b);''] fresh_executor))) =
     [(str ''const a = \"p\", b = \"q\";'', [], None),
      (str ''console.log(a);'', str ''p'' @ [10], None),
      (str ''console.log(b);'', [], Some (str ''b is not defined''))] \<and>
   the_context (executor_after (projr (run demo_engine
        [str ''const a = \"p\", b = \"q\";console.log(a);console.log(b);''] fresh_executor)))
     (str ''b'') = None"
  by code_simp

text \<open>
  C6. The streaming run has no timer. A statement that awaits 61 seconds is awaited to
  its end, the statement after it runs, and the run resolves without an error after
  61000 milliseconds.
\<close>

theorem run_exceeds_sixty_seconds:
  "run_ms (projr (run demo_engine
     [str ''await new Promise((r) => setTimeout(r, 61000));console.log(\"after\");'']
     fresh_executor)) = 61000 \<and>
   result (projr (run demo_engine
     [str ''await new Promise((r) => setTimeout(r, 61000));console.log(\"after\");'']
     fresh_executor)) = \<lparr>result_logs = str ''after'' @ [10], result_error = []\<rparr>"
  by code_simp

text \<open>
  C7, as stated, fails: \<open>stop()\<close> is called while the first statement is awaited, the
  flag of the loop is set, and the run goes on to the next statement and resolves with
  its log and no error, not with \<open>Execution stopped\<close>.
\<close>

theorem stop_leaves_run_untouched:
  "stopped (fst (projr (run_with_stop demo_engine
     [str ''await new Promise((r) => setTimeout(r, 61000));''] [str ''console.log(\"after\");'']
     (idle_runtime, fresh_executor)))) \<and>
   result (snd (projr (run_with_stop demo_engine
     [str ''await new Promise((r) => setTimeout(r, 61000));''] [str ''console.log(\"after\");'']
     (idle_runtime, fresh_executor))))
     = \<lparr>result_logs = str ''after'' @ [10], result_error = []\<rparr>"
  by code_simp

lemma starts_with_var:
  assumes "startsWith s (str ''var '')"
  shows "\<not> startsWith s (str ''const'')" "\<not> startsWith s (str ''let'')"
    "\<not> startsWith s (str ''async'')" "\<not> startsWith s (str ''function'')"
proof -
  have "take (length (str ''var '')) s = str ''var ''"
    using assms by (simp add: startsWith_def)
  then have "s = str ''var '' @ drop (length (str ''var '')) s"
    by (metis append_take_drop_id)
  then obtain rest where s: "s = str ''var '' @ rest" ..
  show "\<not> startsWith s (str ''const'')" "\<not> startsWith s (str ''let'')"
    "\<not> startsWith s (str ''async'')" "\<not> startsWith s (str ''function'')"
    by (simp_all add: s startsWith_def str_def)
qed

lemma var_extracts_nothing:
  assumes "startsWith (trim source) (str ''var '')"
  shows "extractVariableNames source = []" and "extractFunctionName source = None"
  using starts_with_var [OF assms]
  by (simp_all add: extractVariableNames_def extractFunctionName_def
        match_declaration_keyword_def Let_def)

lemma var_executes_plainly:
  assumes "startsWith (trim source) (str ''var '')"
  shows "executeStatement eng source transpiled ex =
           (let r = runInContext eng (wrap_statement transpiled) (the_context ex)
            in (case completion r of Inl e \<Rightarrow> Some (formatError e) | Inr _ \<Rightarrow> None,
                after_vm r ex, elapsed_ms r))"
  using var_extracts_nothing [OF assms]
  by (simp add: executeStatement_def Let_def split: sum.splits)

text \<open>
  C10. For a statement that starts with \<open>var\<close> no variable name and no function name
  is extracted, so \<open>executeStatement\<close> takes the plain wrapper and writes nothing to the
  context: the context afterwards is the one the machine left. In the run of
  \<open>var x = 1;\<close> followed by \<open>console.log(x);\<close> the second statement fails with the
  reference error, and \<open>x\<close> is not a global of the context.
\<close>

theorem var_is_not_hoisted:
  "(startsWith (trim source) (str ''var '') \<longrightarrow>
      extractVariableNames source = [] \<and> extractFunctionName source = None \<and>
      the_context (fst (snd (executeStatement eng source transpiled ex)))
        = context_after (runInContext eng (wrap_statement transpiled) (the_context ex))) \<and>
   map (\<lambda>e. (statement e, event_logs e, event_error e))
     (run_events (projr (run demo_engine [str ''var x = 1;console.log(x);''] fresh_executor))) =
     [(str ''var x = 1;'', [], None),
      (str ''console.log(x);'', [], Some (str ''x is not defined''))] \<and>
   the_context (executor_after (projr (run demo_engine
        [str ''var x = 1;console.log(x);''] fresh_executor))) (str ''x'') = None"
proof -
  have "map (\<lambda>e. (statement e, event_logs e, event_error e))
     (run_events (projr (run demo_engine [str ''var x = 1;console.log(x);''] fresh_executor))) =
     [(str ''var x = 1;'', [], None),
      (str ''console.log(x);'', [], Some (str ''x is not defined''))] \<and>
   the_context (executor_after (projr (run demo_engine
        [str ''var x = 1;console.log(x);''] fresh_executor))) (str ''x'') = None"
    by code_simp
  then show ?thesis
    using var_extracts_nothing [of source] var_executes_plainly [of source eng transpiled ex]
    by (simp add: Let_def after_vm_def)
qed

theorem var_is_not_hoisted_witness:
  "startsWith (trim (str '' var x = 1;'')) (str ''var '') \<and>
   extractVariableNames (str '' var x = 1;'') = [] \<and>
   extractFunctionName (str '' var x = 1;'') = None"
proof -
  have "startsWith (trim (str '' var x = 1;'')) (str ''var '')"
    by code_simp
  then show ?thesis
    using var_is_not_hoisted [of "str '' var x = 1;''"] by simp
qed


lemma on_chunks_append:
  "on_chunks eng (before @ rest) st = on_chunks eng rest (on_chunks eng before st)"
  by (simp add: on_chunks_def)

text \<open>
  C7, amended. \<open>Runtime.stop\<close> does not abort the run of the interpreter: it sets the
  flag of the session and calls \<open>ExecutionManager.stop\<close>, whose body is empty. A run
  during which it is called reads the rest of its text and resolves exactly as the run
  without the call, and a call after the run leaves the executor as the run left it.
\<close>

theorem stop_does_not_abort_run:
  "run_with_stop eng before rest (rt, ex) =
     (case run eng (before @ rest) ex of
        Inl e \<Rightarrow> Inl e
      | Inr r \<Rightarrow> Inr (rt\<lparr>stopped := True\<rparr>, r)) \<and>
   snd (Runtime_stop (rt, ex)) = ex"
  by (simp add: Runtime_stop_def ExecutionManager_stop_def run_with_stop_def run_def
        Let_def on_chunks_append)

section \<open>Properties of the fence parser\<close>

subsection \<open>Events and streams\<close>

lemma streams_below_append [simp]:
  "streams_below n (a @ b) \<longleftrightarrow> streams_below n a \<and> streams_below n b"
  by (simp add: streams_below_def)

lemma streams_below_Nil [simp]: "streams_below n []"
  by (simp add: streams_below_def)

lemma streams_below_Cons [simp]:
  "streams_below n (e # es) \<longleftrightarrow> event_stream e < n \<and> streams_below n es"
  by (simp add: streams_below_def)

lemma streams_below_mono: "streams_below n es \<Longrightarrow> n \<le> m \<Longrightarrow> streams_below m es"
  by (induction es) auto

lemma stream_tokens_append:
  "stream_tokens s (a @ b) =
     (if Close s \<in> set a then stream_tokens s a else stream_tokens s a @ stream_tokens s b)"
  by (induction a rule: stream_tokens.induct) auto

lemma body_append:
  "body s (a @ b) = (if Close s \<in> set a then body s a else body s a @ body s b)"
  by (simp add: body_def stream_tokens_append)

lemma yields_append [simp]: "yields (a @ b) = yields a @ yields b"
  by (induction a rule: yields.induct) auto

lemma stream_tokens_fresh: "streams_below n es \<Longrightarrow> n \<le> s \<Longrightarrow> stream_tokens s es = []"
  by (induction es rule: stream_tokens.induct) auto

lemma body_fresh: "streams_below n es \<Longrightarrow> n \<le> s \<Longrightarrow> body s es = []"
  by (simp add: body_def stream_tokens_fresh)

lemma not_closed_fresh: "streams_below n es \<Longrightarrow> n \<le> s \<Longrightarrow> Close s \<notin> set es"
  by (auto simp: streams_below_def list_all_iff)

lemma not_yielded_fresh:
  "streams_below n es \<Longrightarrow> n \<le> stream_of seg \<Longrightarrow> seg \<notin> set (yields es)"
  by (induction es rule: yields.induct) auto

lemma body_simps [simp]:
  "body s [] = []"
  "body s (Yield seg # es) = body s es"
  "body s (Push s' t # es) = (if s' = s then t @ body s es else body s es)"
  "body s (Close s' # es) = (if s' = s then [] else body s es)"
  by (simp_all add: body_def)

subsection \<open>Streams are created in order\<close>

lemma parser_wf_buffer [simp]: "parser_wf (p\<lparr>buffer := b\<rparr>) = parser_wf p"
  by (simp add: parser_wf_def)

lemma ensureMarkdownStream_wf:
  assumes "parser_wf p"
  shows "parser_wf (snd (snd (ensureMarkdownStream p)))"
    and "streams_created p \<le> streams_created (snd (snd (ensureMarkdownStream p)))"
    and "streams_below (streams_created (snd (snd (ensureMarkdownStream p))))
           (fst (snd (ensureMarkdownStream p)))"
    and "fst (ensureMarkdownStream p) < streams_created (snd (snd (ensureMarkdownStream p)))"
  using assms
  by (auto simp: ensureMarkdownStream_def parser_wf_def Let_def split: option.splits)

lemma ensureMarkdownStream_fields [simp]:
  "markdownStream (snd (snd (ensureMarkdownStream p))) = Some (fst (ensureMarkdownStream p))"
  "buffer (snd (snd (ensureMarkdownStream p))) = buffer p"
  "activeBlock (snd (snd (ensureMarkdownStream p))) = activeBlock p"
  "blockIndex (snd (snd (ensureMarkdownStream p))) = blockIndex p"
  by (auto simp: ensureMarkdownStream_def Let_def split: option.splits)

lemma pushMarkdown_wf:
  assumes "parser_wf p"
  shows "parser_wf (snd (pushMarkdown t p))"
    and "streams_created p \<le> streams_created (snd (pushMarkdown t p))"
    and "streams_below (streams_created (snd (pushMarkdown t p))) (fst (pushMarkdown t p))"
  using assms
  by (auto simp: pushMarkdown_def ensureMarkdownStream_def parser_wf_def Let_def
      split: option.splits)

lemma closeMarkdownStream_wf:
  assumes "parser_wf p"
  shows "parser_wf (snd (closeMarkdownStream p))"
    and "streams_below (streams_created p) (fst (closeMarkdownStream p))"
  using assms
  by (auto simp: closeMarkdownStream_def parser_wf_def split: option.splits)

lemma flushMarkdown_final:
  "flushMarkdown True p =
     (if buffer p = [] then closeMarkdownStream p
      else (fst (pushMarkdown (buffer p) (p\<lparr>buffer := []\<rparr>)) @
              fst (closeMarkdownStream (snd (pushMarkdown (buffer p) (p\<lparr>buffer := []\<rparr>)))),
            snd (closeMarkdownStream (snd (pushMarkdown (buffer p) (p\<lparr>buffer := []\<rparr>))))))"
  by (simp add: flushMarkdown_def Let_def case_prod_beta)

lemma flushMarkdown_not_final:
  "flushMarkdown False p =
     (let n = length (buffer p) - min (countTrailingBackticks (buffer p)) MAX_TAIL
      in pushMarkdown (take n (buffer p)) (p\<lparr>buffer := drop n (buffer p)\<rparr>))"
  by (auto simp: flushMarkdown_def Let_def case_prod_beta pushMarkdown_def)

lemma flushMarkdown_wf:
  assumes "parser_wf p"
  shows "parser_wf (snd (flushMarkdown final p))"
    and "streams_created p \<le> streams_created (snd (flushMarkdown final p))"
    and "streams_below (streams_created (snd (flushMarkdown final p))) (fst (flushMarkdown final p))"
proof -
  have "parser_wf (snd (flushMarkdown final p)) \<and>
        streams_created p \<le> streams_created (snd (flushMarkdown final p)) \<and>
        streams_below (streams_created (snd (flushMarkdown final p))) (fst (flushMarkdown final p))"
  proof (cases final)
    case False
    then show ?thesis
      using pushMarkdown_wf [of "p\<lparr>buffer := b\<rparr>" for b] assms
      by (simp add: flushMarkdown_not_final Let_def)
  next
    case True
    show ?thesis
    proof (cases "buffer p = []")
      case e: True
      then show ?thesis
        using True closeMarkdownStream_wf [OF assms] by (simp add: flushMarkdown_final)
    next
      case False
      define q where "q = snd (pushMarkdown (buffer p) (p\<lparr>buffer := []\<rparr>))"
      have q: "parser_wf q" "streams_created p \<le> streams_created q"
        "streams_below (streams_created q) (fst (pushMarkdown (buffer p) (p\<lparr>buffer := []\<rparr>)))"
        unfolding q_def using pushMarkdown_wf [of "p\<lparr>buffer := []\<rparr>" "buffer p"] assms
        by simp_all
      show ?thesis
        using True False q closeMarkdownStream_wf [OF q(1)]
        by (simp add: flushMarkdown_final q_def [symmetric])
    qed
  qed
  then show "parser_wf (snd (flushMarkdown final p))"
    and "streams_created p \<le> streams_created (snd (flushMarkdown final p))"
    and "streams_below (streams_created (snd (flushMarkdown final p))) (fst (flushMarkdown final p))"
    by simp_all
qed

lemma openBlock_wf:
  assumes "parser_wf p"
  shows "parser_wf (snd (openBlock info p))"
    and "streams_created p \<le> streams_created (snd (openBlock info p))"
    and "stream_of (fst (openBlock info p)) < streams_created (snd (openBlock info p))"
  using assms
  by (auto simp: openBlock_def parser_wf_def Let_def split: BlockInfo.splits)

lemma consumeActiveBlock_wf:
  assumes "parser_wf p" and "activeBlock p = Some block"
  shows "parser_wf (fst (snd (consumeActiveBlock block final p))) \<and>
         streams_created (fst (snd (consumeActiveBlock block final p))) = streams_created p \<and>
         streams_below (streams_created p) (fst (consumeActiveBlock block final p))"
proof (cases block)
  case (agent_run_block index s headerSource lastNonWs)
  then show ?thesis
    using assms
    by (auto simp: consumeActiveBlock_def consumeAgentRunBlock_def closeAgentRunBlock_def
          parser_wf_def Let_def case_prod_beta
        split: option.splits)
next
  case (agent_data_block s)
  then show ?thesis
    using assms
    by (auto simp: consumeActiveBlock_def consumeAgentDataBlock_def parser_wf_def Let_def
          case_prod_beta
        split: option.splits)
next
  case (passthrough_block s)
  then show ?thesis
    using assms
    by (auto simp: consumeActiveBlock_def consumePassthroughBlock_def parser_wf_def Let_def
          case_prod_beta
        split: option.splits)
qed

subsection \<open>Occurrences of a substring\<close>

lemma occurs_at_0: "occurs_at s n 0 \<longleftrightarrow> take (length n) s = n"
proof -
  have "length n \<le> length s" if "take (length n) s = n"
  proof -
    have "length (take (length n) s) = length n" by (rule arg_cong [OF that])
    then show ?thesis by (simp add: min_def split: if_splits)
  qed
  then show ?thesis by (auto simp: occurs_at_def)
qed

lemma occurs_at_Suc: "occurs_at (c # s) n (Suc j) \<longleftrightarrow> occurs_at s n j"
  by (simp add: occurs_at_def)

lemma indexOf_Some_iff:
  "indexOf s n = Some k \<longleftrightarrow> occurs_at s n k \<and> (\<forall>j<k. \<not> occurs_at s n j)"
proof (induction s arbitrary: k)
  case Nil
  then show ?case by (auto simp: occurs_at_def)
next
  case (Cons c s)
  show ?case
  proof (cases "take (length n) (c # s) = n")
    case True
    then have o: "occurs_at (c # s) n 0" by (simp add: occurs_at_0)
    show ?thesis
    proof (cases k)
      case 0
      then show ?thesis using True o by simp
    next
      case (Suc k')
      then show ?thesis using True o by auto
    qed
  next
    case False
    then have o: "\<not> occurs_at (c # s) n 0" by (simp add: occurs_at_0)
    show ?thesis
    proof (cases k)
      case 0
      then show ?thesis using False o by auto
    next
      case (Suc k')
      have "(\<forall>j<Suc k'. \<not> occurs_at (c # s) n j) \<longleftrightarrow> (\<forall>j<k'. \<not> occurs_at s n j)"
        using o by (auto simp: less_Suc_eq_0_disj occurs_at_Suc)
      then show ?thesis
        using False Suc Cons.IH [of k'] by (auto simp: occurs_at_Suc)
    qed
  qed
qed

lemma indexOf_None_iff: "indexOf s n = None \<longleftrightarrow> (\<forall>j. \<not> occurs_at s n j)"
proof
  assume "indexOf s n = None"
  show "\<forall>j. \<not> occurs_at s n j"
  proof (rule ccontr)
    assume "\<not> (\<forall>j. \<not> occurs_at s n j)"
    then obtain j where "occurs_at s n j" by blast
    then obtain k where "occurs_at s n k" "\<forall>i<k. \<not> occurs_at s n i"
      by (metis (mono_tags, lifting) exists_least_iff)
    then have "indexOf s n = Some k" by (simp add: indexOf_Some_iff)
    then show False using \<open>indexOf s n = None\<close> by simp
  qed
next
  assume "\<forall>j. \<not> occurs_at s n j"
  then show "indexOf s n = None"
    by (cases "indexOf s n") (auto simp: indexOf_Some_iff)
qed

lemma occurs_at_append_left:
  "occurs_at s n j \<Longrightarrow> occurs_at (s @ t) n j"
  by (auto simp: occurs_at_def)

lemma occurs_at_append_inside:
  "j + length n \<le> length s \<Longrightarrow> occurs_at (s @ t) n j \<longleftrightarrow> occurs_at s n j"
  by (auto simp: occurs_at_def)

lemma occurs_at_append_right:
  "occurs_at (e @ r) n (length e + j) \<longleftrightarrow> occurs_at r n j"
  by (auto simp: occurs_at_def)

lemma indexOf_append_found:
  "indexOf s n = Some k \<Longrightarrow> indexOf (s @ t) n = Some k"
  unfolding indexOf_Some_iff
  by (auto simp: occurs_at_append_left) (metis occurs_at_append_inside occurs_at_def less_imp_le_nat
      add_le_mono1 order_trans)

lemma indexOfFrom_append_found:
  "indexOfFrom s n start = Some h \<Longrightarrow> start \<le> length s \<Longrightarrow>
   indexOfFrom (s @ t) n start = Some h"
  by (auto simp: indexOfFrom_def min_def dest: indexOf_append_found [where t = t])

lemma indexOf_FENCE_0_startsWith:
  "indexOf s FENCE = Some 0 \<Longrightarrow> startsWith s FENCE"
  by (simp add: indexOf_Some_iff occurs_at_0 startsWith_def)

subsection \<open>The turns of the loop, case by case\<close>

lemma drain_step_active:
  "activeBlock p = Some block \<Longrightarrow> drain_step final p = consumeActiveBlock block final p"
  by (simp add: drain_step_def)

lemma drain_step_no_fence:
  "activeBlock p = None \<Longrightarrow> indexOf (buffer p) FENCE = None \<Longrightarrow>
   drain_step final p = (fst (flushMarkdown final p), snd (flushMarkdown final p), False)"
  by (simp add: drain_step_def case_prod_beta)

lemma drain_step_fence_later:
  "activeBlock p = None \<Longrightarrow> indexOf (buffer p) FENCE = Some k \<Longrightarrow> k > 0 \<Longrightarrow>
   drain_step final p =
     (fst (pushMarkdown (take k (buffer p)) (p\<lparr>buffer := drop k (buffer p)\<rparr>)),
      snd (pushMarkdown (take k (buffer p)) (p\<lparr>buffer := drop k (buffer p)\<rparr>)), True)"
  by (simp add: drain_step_def case_prod_beta)

lemma drain_step_fence_open:
  "activeBlock p = None \<Longrightarrow> indexOf (buffer p) FENCE = Some 0 \<Longrightarrow>
   indexOfFrom (buffer p) [10] 3 = None \<Longrightarrow>
   drain_step final p =
     (if final
      then (fst (pushMarkdown (buffer p) p) @
              fst (closeMarkdownStream ((snd (pushMarkdown (buffer p) p))\<lparr>buffer := []\<rparr>)),
            snd (closeMarkdownStream ((snd (pushMarkdown (buffer p) p))\<lparr>buffer := []\<rparr>)),
            False)
      else ([], p, False))"
  by (simp add: drain_step_def case_prod_beta indexOf_FENCE_0_startsWith)

lemma drain_step_header:
  "activeBlock p = None \<Longrightarrow> indexOf (buffer p) FENCE = Some 0 \<Longrightarrow>
   indexOfFrom (buffer p) [10] 3 = Some headerEnd \<Longrightarrow>
   drain_step final p = header_step headerEnd p"
  by (simp add: drain_step_def header_step_def case_prod_beta Let_def indexOf_FENCE_0_startsWith
      split: option.splits)

lemma header_step_wf:
  assumes "parser_wf p"
  shows "parser_wf (fst (snd (header_step h p))) \<and>
         streams_created p \<le> streams_created (fst (snd (header_step h p))) \<and>
         streams_below (streams_created (fst (snd (header_step h p)))) (fst (header_step h p))"
proof -
  define rawHeader where "rawHeader = stripCarriageReturn (take (h - 3) (drop 3 (buffer p)))"
  define p1 where "p1 = p\<lparr>buffer := drop (Suc h) (buffer p)\<rparr>"
  have w1: "parser_wf p1" "streams_created p1 = streams_created p"
    using assms by (simp_all add: p1_def)
  show ?thesis
  proof (cases "parseHeader (trim rawHeader) rawHeader")
    case None
    have "parser_wf ((snd (snd (ensureMarkdownStream p1)))\<lparr>activeBlock :=
             Some (passthrough_block (fst (ensureMarkdownStream p1)))\<rparr>)"
      using ensureMarkdownStream_wf [OF w1(1)] by (auto simp: parser_wf_def)
    then show ?thesis
      using None ensureMarkdownStream_wf [OF w1(1)] w1(2)
      by (simp add: header_step_def Let_def rawHeader_def [symmetric] p1_def [symmetric])
  next
    case (Some blockInfo)
    define p2 where "p2 = snd (closeMarkdownStream p1)"
    have w2: "parser_wf p2" "streams_created p2 = streams_created p"
      "streams_below (streams_created p) (fst (closeMarkdownStream p1))"
      using closeMarkdownStream_wf [OF w1(1)] w1(2) by (simp_all add: p2_def)
    show ?thesis
      using Some openBlock_wf [OF w2(1), of blockInfo] w2
      by (auto simp: header_step_def Let_def rawHeader_def [symmetric]
            p1_def [symmetric] p2_def [symmetric] intro: streams_below_mono)
  qed
qed

lemma drain_step_wf:
  assumes "parser_wf p"
  shows "parser_wf (fst (snd (drain_step final p))) \<and>
         streams_created p \<le> streams_created (fst (snd (drain_step final p))) \<and>
         streams_below (streams_created (fst (snd (drain_step final p))))
           (fst (drain_step final p))"
proof (cases "activeBlock p")
  case (Some block)
  then show ?thesis
    using consumeActiveBlock_wf [OF assms Some, of final] by (simp add: drain_step_active)
next
  case None
  show ?thesis
  proof (cases "indexOf (buffer p) FENCE")
    case no: None
    then show ?thesis
      using None flushMarkdown_wf [OF assms, of final] by (simp add: drain_step_no_fence)
  next
    case (Some k)
    show ?thesis
    proof (cases "k > 0")
      case True
      then show ?thesis
        using None Some pushMarkdown_wf [of "p\<lparr>buffer := drop k (buffer p)\<rparr>"] assms
        by (simp add: drain_step_fence_later)
    next
      case False
      then have k: "indexOf (buffer p) FENCE = Some 0" using Some by simp
      show ?thesis
      proof (cases "indexOfFrom (buffer p) [10] 3")
        case nl: None
        define q where "q = snd (pushMarkdown (buffer p) p)"
        have q: "parser_wf q" "streams_created p \<le> streams_created q"
          "streams_below (streams_created q) (fst (pushMarkdown (buffer p) p))"
          unfolding q_def using pushMarkdown_wf [OF assms] by simp_all
        have c: "parser_wf (snd (closeMarkdownStream (q\<lparr>buffer := []\<rparr>)))"
          "streams_below (streams_created q) (fst (closeMarkdownStream (q\<lparr>buffer := []\<rparr>)))"
          using closeMarkdownStream_wf [of "q\<lparr>buffer := []\<rparr>"] q(1) by simp_all
        show ?thesis
          using None k nl q c assms
          by (simp add: drain_step_fence_open q_def [symmetric])
      next
        case (Some h)
        then show ?thesis
          using None k header_step_wf [OF assms, of h] by (simp add: drain_step_header)
      qed
    qed
  qed
qed

lemma drain_unfold:
  "drain final p =
     (if snd (snd (drain_step final p))
      then (fst (drain_step final p) @ fst (drain final (fst (snd (drain_step final p)))),
            snd (drain final (fst (snd (drain_step final p)))))
      else (fst (drain_step final p), fst (snd (drain_step final p))))"
  by (subst drain.simps) (simp add: case_prod_beta)

lemma drain_induct [case_names step]:
  assumes "\<And>p. (snd (snd (drain_step final p)) \<Longrightarrow> P (fst (snd (drain_step final p)))) \<Longrightarrow> P p"
  shows "P p"
proof (induction "drain_measure p" arbitrary: p rule: less_induct)
  case less
  show ?case
  proof (rule assms)
    assume c: "snd (snd (drain_step final p))"
    have "drain_step final p = (fst (drain_step final p), fst (snd (drain_step final p)), True)"
      using c by (metis prod.collapse)
    then have "drain_measure (fst (snd (drain_step final p))) < drain_measure p"
      by (rule drain_step_decreases)
    then show "P (fst (snd (drain_step final p)))" by (rule less)
  qed
qed

lemma drain_wf:
  "parser_wf p \<Longrightarrow>
   parser_wf (snd (drain final p)) \<and>
   streams_created p \<le> streams_created (snd (drain final p)) \<and>
   streams_below (streams_created (snd (drain final p))) (fst (drain final p))"
proof (induction p rule: drain_induct [where final = final])
  case (step p)
  note st = drain_step_wf [OF step.prems, of final]
  show ?case
  proof (cases "snd (snd (drain_step final p))")
    case False
    then show ?thesis using st by (simp add: drain_unfold [of final p])
  next
    case True
    then show ?thesis
      using st step.IH by (auto simp: drain_unfold [of final p] intro: streams_below_mono)
  qed
qed

subsection \<open>The last character of a code body that is not white space\<close>

lemma updateLastNonWhitespace_loop_previous:
  "updateLastNonWhitespace_loop x previous =
     (case updateLastNonWhitespace_loop x None of Some c \<Rightarrow> Some c | None \<Rightarrow> previous)"
  by (induction x) auto

lemma updateLastNonWhitespace_loop_append:
  "updateLastNonWhitespace_loop (a @ b) previous =
     (case updateLastNonWhitespace_loop a None of
        Some c \<Rightarrow> Some c
      | None \<Rightarrow> updateLastNonWhitespace_loop b previous)"
  by (induction a) auto

lemma updateLastNonWhitespace_eq:
  "updateLastNonWhitespace l chunk =
     (case lastNonWhitespace chunk of Some c \<Rightarrow> Some c | None \<Rightarrow> l)"
  unfolding updateLastNonWhitespace_def lastNonWhitespace_def
  by (rule updateLastNonWhitespace_loop_previous)

lemma lastNonWhitespace_append:
  "lastNonWhitespace (a @ b) = updateLastNonWhitespace (lastNonWhitespace a) b"
  unfolding updateLastNonWhitespace_def lastNonWhitespace_def
  by (simp add: updateLastNonWhitespace_loop_append)
     (subst (2) updateLastNonWhitespace_loop_previous, simp)

lemma lastNonWhitespace_Nil [simp]: "lastNonWhitespace [] = None"
  by (simp add: lastNonWhitespace_def updateLastNonWhitespace_def)

lemma updateLastNonWhitespace_Nil [simp]: "updateLastNonWhitespace l [] = l"
  by (simp add: updateLastNonWhitespace_def)

lemma lastNonWhitespace_semicolon [simp]:
  "lastNonWhitespace (str '';'') = Some (cu CHR '';'')"
  by (simp add: lastNonWhitespace_def updateLastNonWhitespace_def str_def isCodeSpace_def)

lemma terminated_after_close:
  "lastNonWhitespace
     (b @ body s (fst (closeAgentRunBlock s (lastNonWhitespace b) p))) \<in> {None, Some (cu CHR '';'')}"
  by (auto simp: closeAgentRunBlock_def lastNonWhitespace_append updateLastNonWhitespace_eq
      split: option.splits)

subsection \<open>Every code segment is closed, blank or terminated\<close>

lemma code_ok_append: "code_ok E s \<Longrightarrow> code_ok (E @ e) s"
  by (simp add: code_ok_def body_append)

lemma consumeAgentRunBlock_post:
  assumes "consumeAgentRunBlock i s hs l final p = (e, p', c)"
  shows "yields e = []"
    and "activeBlock p' = None \<or>
         activeBlock p' = Some (agent_run_block i s hs (updateLastNonWhitespace l (body s e))) \<and>
         Close s \<notin> set e"
    and "activeBlock p' = None \<Longrightarrow>
         Close s \<in> set e \<and>
         updateLastNonWhitespace l (body s e) \<in> {None, Some (cu CHR '';'')}"
  using assms
  by (auto simp: consumeAgentRunBlock_def closeAgentRunBlock_def Let_def case_prod_beta
        updateLastNonWhitespace_eq lastNonWhitespace_append
      split: option.splits if_splits)

lemma consumeAgentDataBlock_post:
  assumes "consumeAgentDataBlock s final p = (e, p', c)"
  shows "yields e = []" and "activeBlock p' = None \<or> activeBlock p' = activeBlock p"
  using assms
  by (auto simp: consumeAgentDataBlock_def Let_def case_prod_beta split: option.splits if_splits)

lemma consumePassthroughBlock_post:
  assumes "consumePassthroughBlock s final p = (e, p', c)"
  shows "yields e = []" and "activeBlock p' = None \<or> activeBlock p' = activeBlock p"
  using assms
  by (auto simp: consumePassthroughBlock_def Let_def case_prod_beta split: option.splits if_splits)

lemma pushMarkdown_no_code:
  "AgentRunSegment i s \<notin> set (yields (fst (pushMarkdown t p)))"
  by (auto simp: pushMarkdown_def ensureMarkdownStream_def Let_def split: option.splits)

lemma closeMarkdownStream_no_yield [simp]: "yields (fst (closeMarkdownStream p)) = []"
  by (auto simp: closeMarkdownStream_def split: option.splits)

lemma ensureMarkdownStream_no_code:
  "AgentRunSegment i s \<notin> set (yields (fst (snd (ensureMarkdownStream p))))"
  by (auto simp: ensureMarkdownStream_def Let_def split: option.splits)

lemma flushMarkdown_no_code:
  "AgentRunSegment i s \<notin> set (yields (fst (flushMarkdown final p)))"
  "activeBlock (snd (flushMarkdown final p)) = activeBlock p"
  by (cases final; simp add: flushMarkdown_final flushMarkdown_not_final Let_def pushMarkdown_no_code)+

lemma closeMarkdownStream_events:
  "parser_wf p \<Longrightarrow> Close (streams_created p) \<notin> set (fst (closeMarkdownStream p)) \<and>
     body s (fst (closeMarkdownStream p)) = []"
  by (auto simp: closeMarkdownStream_def parser_wf_def split: option.splits)

lemma openBlock_post:
  "\<forall>i s. fst (openBlock info p) = AgentRunSegment i s \<longrightarrow>
           (\<exists>hs. activeBlock (snd (openBlock info p)) = Some (agent_run_block i s hs None))"
  "\<forall>i s hs l. activeBlock (snd (openBlock info p)) = Some (agent_run_block i s hs l) \<longrightarrow>
           s = streams_created p \<and> l = None"
  by (auto simp: openBlock_def Let_def split: BlockInfo.splits)

lemma idle_postI:
  "activeBlock q = None \<Longrightarrow> (\<And>i s. AgentRunSegment i s \<notin> set (yields e)) \<Longrightarrow>
   idle_post p (e, q, c)"
  by (simp add: idle_post_def)

lemma header_step_post:
  assumes "parser_wf p" and "activeBlock p = None"
  shows "idle_post p (header_step h p)"
proof -
  define rawHeader where "rawHeader = stripCarriageReturn (take (h - 3) (drop 3 (buffer p)))"
  define p1 where "p1 = p\<lparr>buffer := drop (Suc h) (buffer p)\<rparr>"
  define p2 where "p2 = snd (closeMarkdownStream p1)"
  have w1: "parser_wf p1" "streams_created p1 = streams_created p"
    using assms by (simp_all add: p1_def)
  have w2: "parser_wf p2" "streams_created p2 = streams_created p"
    using closeMarkdownStream_wf [of p1] assms by (simp_all add: p2_def p1_def)
  show ?thesis
  proof (cases "parseHeader (trim rawHeader) rawHeader")
    case None
    then show ?thesis
      using ensureMarkdownStream_no_code [of _ _ p1]
      by (simp add: idle_post_def header_step_def Let_def rawHeader_def [symmetric]
            p1_def [symmetric])
  next
    case (Some blockInfo)
    then show ?thesis
      using openBlock_post [of blockInfo p2] w2(2) closeMarkdownStream_events [OF w1(1)] w1(2)
      by (auto simp: idle_post_def header_step_def Let_def rawHeader_def [symmetric]
            p1_def [symmetric] p2_def [symmetric] body_append)
  qed
qed

lemma drain_step_idle_post:
  assumes "parser_wf p" and "activeBlock p = None"
  shows "idle_post p (drain_step final p)"
proof (cases "indexOf (buffer p) FENCE")
  case None
  then show ?thesis
    using assms by (simp add: drain_step_no_fence flushMarkdown_no_code idle_postI)
next
  case (Some k)
  show ?thesis
  proof (cases "k > 0")
    case True
    then show ?thesis
      using assms Some by (simp add: drain_step_fence_later pushMarkdown_no_code idle_postI)
  next
    case False
    then have k: "indexOf (buffer p) FENCE = Some 0" using Some by simp
    show ?thesis
    proof (cases "indexOfFrom (buffer p) [10] 3")
      case None
      then show ?thesis
        using assms k by (simp add: drain_step_fence_open pushMarkdown_no_code idle_postI)
    next
      case (Some h)
      then show ?thesis
        using assms k header_step_post [OF assms, of h] by (simp add: drain_step_header)
    qed
  qed
qed

lemma run_inv_step:
  assumes inv: "run_inv E p"
  shows "run_inv (E @ fst (drain_step final p)) (fst (snd (drain_step final p)))"
proof -
  obtain e p' c where st: "drain_step final p = (e, p', c)"
    by (cases "drain_step final p")
  have wf: "parser_wf p" and below: "streams_below (streams_created p) E"
    using inv by (simp_all add: run_inv_def)
  have wf': "parser_wf p'" and mono: "streams_created p \<le> streams_created p'"
    and below': "streams_below (streams_created p') e"
    using drain_step_wf [OF wf, of final] st by simp_all
  have belowE: "streams_below (streams_created p') (E @ e)"
    using below below' mono by (auto intro: streams_below_mono)
  have "run_inv (E @ e) p'"
  proof (cases "activeBlock p")
    case None
    have yielded: "code_ok E s" if "AgentRunSegment i s \<in> set (yields E)" for i s
      using inv None that by (auto simp: run_inv_def)
    have post: "idle_post p (e, p', c)"
      using drain_step_idle_post [OF wf None, of final] st by simp
    have fresh: "Close s \<notin> set (E @ e) \<and> l = lastNonWhitespace (body s (E @ e))"
      if a: "activeBlock p' = Some (agent_run_block i s hs l)" for i s hs l
    proof -
      have s: "s = streams_created p" "l = None" "Close s \<notin> set e" "body s e = []"
        using post a by (auto simp: idle_post_def)
      have "Close s \<notin> set E" "body s E = []"
        using not_closed_fresh [OF below, of s] body_fresh [OF below, of s] s(1) by simp_all
      then show ?thesis using s by (simp add: body_append)
    qed
    have new: "code_ok (E @ e) s \<or> (\<exists>j hs l. activeBlock p' = Some (agent_run_block j s hs l))"
      if "AgentRunSegment i s \<in> set (yields (E @ e))" for i s
    proof (cases "AgentRunSegment i s \<in> set (yields E)")
      case True
      then show ?thesis using yielded code_ok_append by blast
    next
      case False
      then have "AgentRunSegment i s \<in> set (yields e)" using that by simp
      then have "\<exists>hs. activeBlock p' = Some (agent_run_block i s hs None)"
        using post unfolding idle_post_def by simp
      then show ?thesis by blast
    qed
    show ?thesis
      unfolding run_inv_def using wf' belowE fresh new by blast
  next
    case (Some block)
    show ?thesis
    proof (cases block)
      case (agent_run_block i s hs l)
      have cons: "consumeAgentRunBlock i s hs l final p = (e, p', c)"
        using st Some agent_run_block by (simp add: drain_step_active consumeActiveBlock_def)
      note post = consumeAgentRunBlock_post [OF cons]
      have open_: "Close s \<notin> set E" "l = lastNonWhitespace (body s E)"
        using inv Some agent_run_block by (auto simp: run_inv_def)
      have bd: "body s (E @ e) = body s E @ body s e"
        using open_(1) by (simp add: body_append)
      have lnw: "lastNonWhitespace (body s (E @ e)) = updateLastNonWhitespace l (body s e)"
        by (simp add: bd lastNonWhitespace_append open_(2))
      have others: "code_ok E s'" if "AgentRunSegment i' s' \<in> set (yields E)" "s' \<noteq> s" for i' s'
        using inv Some agent_run_block that by (auto simp: run_inv_def)
      have active: "Close s'' \<notin> set (E @ e) \<and> l'' = lastNonWhitespace (body s'' (E @ e))"
        if a: "activeBlock p' = Some (agent_run_block i'' s'' hs'' l'')" for i'' s'' hs'' l''
        using post(2) a open_(1) lnw by auto
      have new: "code_ok (E @ e) s' \<or> (\<exists>j hs l. activeBlock p' = Some (agent_run_block j s' hs l))"
        if y: "AgentRunSegment i' s' \<in> set (yields (E @ e))" for i' s'
      proof (cases "s' = s")
        case False
        then show ?thesis using y others post(1) code_ok_append by auto
      next
        case True
        show ?thesis
        proof (cases "activeBlock p'")
          case None
          have "Close s \<in> set (E @ e)" using post(3) [OF None] by simp
          moreover have "lastNonWhitespace (body s (E @ e)) \<in> {None, Some (cu CHR '';'')}"
            using post(3) [OF None] lnw by simp
          ultimately show ?thesis
            using True by (auto simp: code_ok_def blank_def ends_with_semicolon_def)
        next
          case (Some b)
          then show ?thesis using post(2) True by auto
        qed
      qed
      show ?thesis
        unfolding run_inv_def using wf' belowE active new by blast
    next
      case (agent_data_block s)
      have cons: "consumeAgentDataBlock s final p = (e, p', c)"
        using st Some agent_data_block by (simp add: drain_step_active consumeActiveBlock_def)
      note post = consumeAgentDataBlock_post [OF cons]
      have yielded: "code_ok E s'" if "AgentRunSegment i s' \<in> set (yields E)" for i s'
        using inv Some agent_data_block that by (auto simp: run_inv_def)
      show ?thesis
        unfolding run_inv_def using wf' belowE post Some agent_data_block yielded code_ok_append
        by auto
    next
      case (passthrough_block s)
      have cons: "consumePassthroughBlock s final p = (e, p', c)"
        using st Some passthrough_block by (simp add: drain_step_active consumeActiveBlock_def)
      note post = consumePassthroughBlock_post [OF cons]
      have yielded: "code_ok E s'" if "AgentRunSegment i s' \<in> set (yields E)" for i s'
        using inv Some passthrough_block that by (auto simp: run_inv_def)
      show ?thesis
        unfolding run_inv_def using wf' belowE post Some passthrough_block yielded code_ok_append
        by auto
    qed
  qed
  then show ?thesis using st by simp
qed

lemma run_inv_drain:
  "run_inv E p \<Longrightarrow> run_inv (E @ fst (drain final p)) (snd (drain final p))"
proof (induction p arbitrary: E rule: drain_induct [where final = final])
  case (step p)
  note st = run_inv_step [OF step.prems, of final]
  show ?case
  proof (cases "snd (snd (drain_step final p))")
    case False
    then show ?thesis using st by (simp add: drain_unfold [of final p])
  next
    case True
    then show ?thesis
      using step.IH [OF True st] by (simp add: drain_unfold [of final p])
  qed
qed

lemma run_inv_buffer [simp]: "run_inv E (p\<lparr>buffer := b\<rparr>) = run_inv E p"
  by (simp add: run_inv_def)

lemma run_inv_parse_chunks:
  "run_inv E p \<Longrightarrow> run_inv (E @ fst (parse_chunks chunks p)) (snd (parse_chunks chunks p))"
proof (induction chunks arbitrary: E p)
  case Nil
  then show ?case by simp
next
  case (Cons chunk chunks)
  have "run_inv E (append_text chunk p)"
    using Cons.prems by (simp add: append_text_def)
  then have "run_inv (E @ fst (drain False (append_text chunk p)))
                (snd (drain False (append_text chunk p)))"
    by (rule run_inv_drain)
  then have "run_inv ((E @ fst (drain False (append_text chunk p))) @
                  fst (parse_chunks chunks (snd (drain False (append_text chunk p)))))
               (snd (parse_chunks chunks (snd (drain False (append_text chunk p)))))"
    by (rule Cons.IH)
  then show ?case
    by (simp add: case_prod_beta)
qed

lemma run_inv_new: "run_inv [] new_parser"
  by (simp add: run_inv_def new_parser_def parser_wf_def)

lemma drain_step_final_stop:
  "\<not> snd (snd (drain_step True p)) \<Longrightarrow> activeBlock (fst (snd (drain_step True p))) = None"
  by (auto simp: drain_step_def consumeActiveBlock_def consumeAgentRunBlock_def
        consumeAgentDataBlock_def consumePassthroughBlock_def closeAgentRunBlock_def
        flushMarkdown_no_code Let_def case_prod_beta
      split: option.splits ActiveBlock.splits if_splits)

lemma drain_final_idle: "activeBlock (snd (drain True p)) = None"
proof (induction p rule: drain_induct [where final = True])
  case (step p)
  show ?case
  proof (cases "snd (snd (drain_step True p))")
    case False
    then show ?thesis using drain_step_final_stop [OF False] by (simp add: drain_unfold [of True p])
  next
    case True
    then show ?thesis using step.IH by (simp add: drain_unfold [of True p])
  qed
qed

lemma run_inv_parse:
  "\<exists>p. run_inv (parse chunks) p \<and> activeBlock p = None"
proof -
  have 1: "run_inv (fst (parse_chunks chunks new_parser)) (snd (parse_chunks chunks new_parser))"
    using run_inv_parse_chunks [OF run_inv_new, of chunks] by simp
  have "run_inv (parse chunks) (snd (drain True (snd (parse_chunks chunks new_parser))))"
    using run_inv_drain [OF 1, of True] by (simp add: parse_def case_prod_beta)
  then show ?thesis using drain_final_idle by blast
qed

text \<open>
  C3, amended. Every code (\<open>agent_run\<close>) segment the parser yields, for every sequence of
  chunks, has its stream closed at the end of the parse, and its body is blank (it has no
  character other than space, tab, line feed and carriage return) or ends with a semicolon,
  ignoring trailing white space: \<open>closeAgentRunBlock\<close> pushes a semicolon when a last
  character that is not white space is stored and is not a semicolon.
\<close>

theorem code_segment_closed_and_terminated:
  "AgentRunSegment index s \<in> set (yields (parse chunks)) \<Longrightarrow>
   Close s \<in> set (parse chunks) \<and>
   (blank (body s (parse chunks)) \<or> ends_with_semicolon (body s (parse chunks)))"
proof -
  assume y: "AgentRunSegment index s \<in> set (yields (parse chunks))"
  obtain p where p: "run_inv (parse chunks) p" "activeBlock p = None"
    using run_inv_parse [of chunks] by blast
  have "code_ok (parse chunks) s"
    using p y unfolding run_inv_def by (metis option.distinct(1))
  then show ?thesis by (simp add: code_ok_def)
qed

theorem code_segment_closed_and_terminated_witness:
  "AgentRunSegment 0 0 \<in> set (yields (parse [str ''```tsx agent.run\<newline>f()'', str ''\<newline>```''])) \<and>
   Close 0 \<in> set (parse [str ''```tsx agent.run\<newline>f()'', str ''\<newline>```'']) \<and>
   (blank (body 0 (parse [str ''```tsx agent.run\<newline>f()'', str ''\<newline>```''])) \<or>
    ends_with_semicolon (body 0 (parse [str ''```tsx agent.run\<newline>f()'', str ''\<newline>```''])))"
proof -
  have "AgentRunSegment 0 0 \<in> set (yields (parse [str ''```tsx agent.run\<newline>f()'', str ''\<newline>```'']))"
    by code_simp
  then show ?thesis
    using code_segment_closed_and_terminated
      [of 0 0 "[str ''```tsx agent.run\<newline>f()'', str ''\<newline>```'']"]
    by simp
qed

text \<open>
  C3 as stated fails on a code block with an empty body: no semicolon is pushed, and the
  body does not end with one.
\<close>

theorem empty_code_segment_has_no_semicolon:
  "segments (parse [str ''```tsx agent.run\<newline>```'']) = [Code 0 []] \<and>
   \<not> ends_with_semicolon []"
  by code_simp

subsection \<open>Event sequences a consumer cannot tell apart\<close>

lemma ev_eq_refl [simp]: "ev_eq L L"
  by (simp add: ev_eq_def)

lemma ev_eq_sym: "ev_eq L R \<Longrightarrow> ev_eq R L"
  by (simp add: ev_eq_def)

lemma ev_eq_trans: "ev_eq L M \<Longrightarrow> ev_eq M R \<Longrightarrow> ev_eq L R"
  by (simp add: ev_eq_def)

lemma ev_eq_append: "ev_eq A B \<Longrightarrow> ev_eq C D \<Longrightarrow> ev_eq (A @ C) (B @ D)"
  by (simp add: ev_eq_def body_append)

lemma ev_eq_push_split: "ev_eq [Push s (x @ y)] [Push s x, Push s y]"
  by (simp add: ev_eq_def)

lemma ev_eq_push_empty: "ev_eq [Push s []] []"
  by (simp add: ev_eq_def)

lemma view_cong: "(\<forall>s. body s L = body s R) \<Longrightarrow> view L seg = view R seg"
  by (cases seg) simp_all

lemma ev_eq_segments: "ev_eq L R \<Longrightarrow> segments L = segments R"
  by (simp add: ev_eq_def segments_def view_cong)

lemma sim_refl [simp]: "sim L L"
  by (simp add: sim_def)

lemma sim_trans: "sim L M \<Longrightarrow> sim M R \<Longrightarrow> sim L R"
  by (simp add: sim_def)

lemma ev_eq_sim: "ev_eq L R \<Longrightarrow> sim L R"
  by (simp add: sim_def ev_eq_segments)

lemma ev_eq_sim_context: "ev_eq X Y \<Longrightarrow> sim (E @ X) (E @ Y)"
  by (rule ev_eq_sim) (simp add: ev_eq_append)

lemma yields_from_append [simp]:
  "yields_from n (a @ b) \<longleftrightarrow> yields_from n a \<and> yields_from n b"
  by (simp add: yields_from_def)

lemma yields_from_Nil [simp]: "yields_from n []"
  by (simp add: yields_from_def)

lemma yields_from_mono: "yields_from n es \<Longrightarrow> m \<le> n \<Longrightarrow> yields_from m es"
  by (auto simp: yields_from_def list_all_iff)

lemma yields_from_no_yield: "yields es = [] \<Longrightarrow> yields_from n es"
  by (simp add: yields_from_def)

subsection \<open>Leading white space of a new prose segment\<close>

lemma isWhitespaceOnly_iff: "isWhitespaceOnly x \<longleftrightarrow> list_all isProseSpace x"
  by (induction x) auto

lemma isWhitespaceOnly_append [simp]:
  "isWhitespaceOnly (x @ y) \<longleftrightarrow> isWhitespaceOnly x \<and> isWhitespaceOnly y"
  by (simp add: isWhitespaceOnly_iff)

lemma dropWhile_whitespace:
  "isWhitespaceOnly x \<Longrightarrow> dropWhile isProseSpace (x @ w) = dropWhile isProseSpace w"
  by (induction x) (auto split: if_splits)

lemma sim_leading_whitespace:
  assumes fresh: "streams_below m E" and later: "yields_from (Suc m) R0"
    and ws: "isWhitespaceOnly x"
  shows "sim (E @ [Yield (MarkdownSegment m), Push m (x @ u)] @ R0)
             (E @ [Yield (MarkdownSegment m), Push m u] @ R0)"
proof -
  let ?L = "E @ [Yield (MarkdownSegment m), Push m (x @ u)] @ R0"
  let ?R = "E @ [Yield (MarkdownSegment m), Push m u] @ R0"
  have nc: "Close m \<notin> set E" and be: "body m E = []"
    using not_closed_fresh [OF fresh, of m] body_fresh [OF fresh, of m] by simp_all
  have y: "yields ?L = yields ?R" by simp
  have other: "body s ?L = body s ?R" if "s \<noteq> m" for s
    using that by (simp add: body_append)
  have bL: "body m ?L = x @ u @ body m R0" and bR: "body m ?R = u @ body m R0"
    using nc be by (simp_all add: body_append)
  have v: "trim_leading (view ?L seg) = trim_leading (view ?R seg)"
    if seg: "seg \<in> set (yields ?L)" for seg
  proof (cases "stream_of seg = m")
    case False
    then show ?thesis using other by (cases seg) simp_all
  next
    case True
    have "seg \<notin> set (yields E)"
      using not_yielded_fresh [OF fresh, of seg] True by simp
    moreover have "seg \<notin> set (yields R0)"
      using later True by (auto simp: yields_from_def list_all_iff)
    ultimately have "seg = MarkdownSegment m" using seg by simp
    then show ?thesis
      using bL bR dropWhile_whitespace [OF ws, of "u @ body m R0"]
      by (simp add: trim_leading_def)
  qed
  have "map (\<lambda>seg. trim_leading (view ?L seg)) (yields ?L) =
        map (\<lambda>seg. trim_leading (view ?R seg)) (yields ?L)"
    by (rule map_cong [OF refl]) (rule v)
  then show ?thesis
    unfolding sim_def segments_def map_map comp_def y [symmetric] .
qed

subsection \<open>Occurrences of the fence after a prefix without one\<close>

lemma indexOf_skip:
  assumes "\<forall>j<length x. \<not> occurs_at (x @ y) n j"
  shows "indexOf (x @ y) n = map_option (\<lambda>k. length x + k) (indexOf y n)"
proof (cases "indexOf y n")
  case None
  then have "\<forall>j. \<not> occurs_at y n j" by (simp add: indexOf_None_iff)
  then have "\<not> occurs_at (x @ y) n j" for j
    using assms occurs_at_append_right [of x y n "j - length x"]
    by (cases "j < length x") auto
  then have "indexOf (x @ y) n = None" by (simp add: indexOf_None_iff)
  then show ?thesis by (simp add: None)
next
  case (Some k)
  then have k: "occurs_at y n k" "\<forall>j<k. \<not> occurs_at y n j"
    by (simp_all add: indexOf_Some_iff)
  have 1: "occurs_at (x @ y) n (length x + k)"
    using k(1) by (simp add: occurs_at_append_right)
  have 2: "\<not> occurs_at (x @ y) n j" if "j < length x + k" for j
  proof (cases "j < length x")
    case True
    then show ?thesis using assms by simp
  next
    case False
    then have "j - length x < k" using that by simp
    then have "\<not> occurs_at y n (j - length x)" using k(2) by simp
    then show ?thesis
      using occurs_at_append_right [of x y n "j - length x"] False by simp
  qed
  have "indexOf (x @ y) n = Some (length x + k)"
    using 1 2 by (simp add: indexOf_Some_iff)
  then show ?thesis by (simp add: Some)
qed

lemma no_fence_inside:
  assumes "indexOf b n = None" and "j + length n \<le> length b"
  shows "\<not> occurs_at (b @ t) n j"
  using assms by (simp add: indexOf_None_iff occurs_at_append_inside)

subsection \<open>The prefix of the buffer that a turn may emit holds no start of a fence\<close>

lemma countTrailingBackticks_loop_ge: "count \<le> countTrailingBackticks_loop r count"
proof (induction r arbitrary: count)
  case Nil
  then show ?case by simp
next
  case (Cons c r)
  show ?case using Cons.IH [of "count + 1"] by auto
qed

lemma countTrailingBackticks_ge:
  "m \<le> 2 \<Longrightarrow> m \<le> countTrailingBackticks (b0 @ replicate m 96)"
proof -
  assume "m \<le> 2"
  then consider "m = 0" | "m = 1" | "m = 2" by linarith
  then show ?thesis
  proof cases
    case 1
    then show ?thesis by simp
  next
    case 2
    then show ?thesis
      using countTrailingBackticks_loop_ge [of 1 "rev b0"]
      by (simp add: countTrailingBackticks_def)
  next
    case 3
    then show ?thesis
      using countTrailingBackticks_loop_ge [of 2 "rev b0"]
      by (simp add: countTrailingBackticks_def numeral_2_eq_2)
  qed
qed

lemma FENCE_replicate: "FENCE = replicate 3 96"
  by (simp add: FENCE_def str_def numeral_3_eq_3)

lemma safe_prefix_blocks:
  assumes "indexOf b FENCE = None" and "j < length b - 2"
  shows "\<not> occurs_at (b @ t) FENCE j"
  using assms by (intro no_fence_inside) simp_all

lemma safe_prefix_markdown:
  assumes none: "indexOf b FENCE = None"
    and j: "j < length b - min (countTrailingBackticks b) MAX_TAIL"
  shows "\<not> occurs_at (b @ t) FENCE j"
proof (cases "j + 3 \<le> length b")
  case True
  then show ?thesis using none by (intro no_fence_inside) simp_all
next
  case False
  show ?thesis
  proof
    assume occ: "occurs_at (b @ t) FENCE j"
    define m where "m = length b - j"
    have m: "m \<le> 2" "0 < m" "j < length b" using False j by (simp_all add: m_def)
    have "take 3 (drop j b @ drop (j - length b) t) = FENCE"
      using occ by (simp add: occurs_at_def)
    then have "take m (take 3 (drop j b @ drop (j - length b) t)) = take m FENCE" by simp
    then have "drop j b = replicate m 96"
      using m by (simp add: m_def FENCE_replicate min_def)
    then have "take j b @ replicate m 96 = b"
      using append_take_drop_id [of j b] by simp
    then have "m \<le> countTrailingBackticks b"
      using countTrailingBackticks_ge [OF m(1), of "take j b"] by simp
    then show False using j m by (simp add: m_def)
  qed
qed

lemma safe_prefix_whitespace:
  assumes "isWhitespaceOnly x" and "j < length x"
  shows "\<not> occurs_at (x @ y) FENCE j"
proof
  assume occ: "occurs_at (x @ y) FENCE j"
  have "take 3 (drop j x @ y) = FENCE"
    using occ assms(2) by (simp add: occurs_at_def)
  moreover have "drop j x = x ! j # drop (Suc j) x"
    using assms(2) by (simp add: Cons_nth_drop_Suc)
  ultimately have "x ! j = 96" by (simp add: FENCE_replicate numeral_3_eq_3)
  moreover have "isProseSpace (x ! j)"
    using assms by (simp add: isWhitespaceOnly_iff list_all_length)
  ultimately show False by (simp add: isProseSpace_def)
qed

subsection \<open>New segments get new streams\<close>

lemma pushMarkdown_yields_from: "yields_from (streams_created p) (fst (pushMarkdown t p))"
  by (auto simp: pushMarkdown_def ensureMarkdownStream_def yields_from_def Let_def
      split: option.splits)

lemma ensureMarkdownStream_yields_from:
  "yields_from (streams_created p) (fst (snd (ensureMarkdownStream p)))"
  by (auto simp: ensureMarkdownStream_def yields_from_def Let_def split: option.splits)

lemma flushMarkdown_yields_from: "yields_from (streams_created p) (fst (flushMarkdown final p))"
  using pushMarkdown_yields_from [of "p\<lparr>buffer := b\<rparr>" for b]
  by (cases final) (simp_all add: flushMarkdown_final flushMarkdown_not_final Let_def
      yields_from_no_yield)

lemma header_step_yields_from: "yields_from (streams_created p) (fst (header_step h p))"
proof -
  define rawHeader where "rawHeader = stripCarriageReturn (take (h - 3) (drop 3 (buffer p)))"
  define p1 where "p1 = p\<lparr>buffer := drop (Suc h) (buffer p)\<rparr>"
  have sc: "streams_created p1 = streams_created p" by (simp add: p1_def)
  show ?thesis
  proof (cases "parseHeader (trim rawHeader) rawHeader")
    case None
    then show ?thesis
      using ensureMarkdownStream_yields_from [of p1] sc
      by (simp add: header_step_def Let_def rawHeader_def [symmetric] p1_def [symmetric]
            yields_from_def)
  next
    case (Some blockInfo)
    then show ?thesis
      using sc
      by (auto simp: header_step_def Let_def rawHeader_def [symmetric] p1_def [symmetric]
            yields_from_def openBlock_def split: BlockInfo.splits)
  qed
qed

lemma drain_step_yields_from:
  "yields_from (streams_created p) (fst (drain_step final p))"
proof (cases "activeBlock p")
  case (Some block)
  obtain e p' c where st: "consumeActiveBlock block final p = (e, p', c)"
    by (cases "consumeActiveBlock block final p")
  have "yields e = []"
  proof (cases block)
    case (agent_run_block i s hs l)
    then show ?thesis
      using st consumeAgentRunBlock_post(1) by (simp add: consumeActiveBlock_def)
  next
    case (agent_data_block s)
    then show ?thesis
      using st consumeAgentDataBlock_post(1) by (simp add: consumeActiveBlock_def)
  next
    case (passthrough_block s)
    then show ?thesis
      using st consumePassthroughBlock_post(1) by (simp add: consumeActiveBlock_def)
  qed
  then show ?thesis using Some st by (simp add: drain_step_active yields_from_no_yield)
next
  case None
  show ?thesis
  proof (cases "indexOf (buffer p) FENCE")
    case no: None
    then show ?thesis
      using None flushMarkdown_yields_from [of p final] by (simp add: drain_step_no_fence)
  next
    case (Some k)
    show ?thesis
    proof (cases "k > 0")
      case True
      then show ?thesis
        using None Some pushMarkdown_yields_from [of "p\<lparr>buffer := drop k (buffer p)\<rparr>"]
        by (simp add: drain_step_fence_later)
    next
      case False
      then have k: "indexOf (buffer p) FENCE = Some 0" using Some by simp
      show ?thesis
      proof (cases "indexOfFrom (buffer p) [10] 3")
        case nl: None
        then show ?thesis
          using None k pushMarkdown_yields_from [of p "buffer p"]
          by (simp add: drain_step_fence_open yields_from_no_yield)
      next
        case (Some h)
        then show ?thesis
          using None k header_step_yields_from [of p h] by (simp add: drain_step_header)
      qed
    qed
  qed
qed

lemma drain_yields_from:
  "parser_wf p \<Longrightarrow> yields_from (streams_created p) (fst (drain final p))"
proof (induction p rule: drain_induct [where final = final])
  case (step p)
  note wf = drain_step_wf [OF step.prems, of final]
  note y = drain_step_yields_from [of p final]
  show ?case
  proof (cases "snd (snd (drain_step final p))")
    case False
    then show ?thesis using y by (simp add: drain_unfold [of final p])
  next
    case True
    then show ?thesis
      using y wf step.IH by (auto simp: drain_unfold [of final p] intro: yields_from_mono)
  qed
qed

subsection \<open>Splitting what a turn of the final drain pushes\<close>

lemma drain_split:
  assumes "fst (snd (drain_step final p)) = fst (snd (drain_step final p2))"
    and "snd (snd (drain_step final p)) = snd (snd (drain_step final p2))"
    and "ev_eq (fst (drain_step final p)) (pre @ fst (drain_step final p2))"
  shows "ev_eq (fst (drain final p)) (pre @ fst (drain final p2))"
proof (cases "snd (snd (drain_step final p))")
  case False
  then show ?thesis
    using assms by (simp add: drain_unfold [of final p] drain_unfold [of final p2])
next
  case True
  have "ev_eq (fst (drain_step final p) @ fst (drain final (fst (snd (drain_step final p)))))
          ((pre @ fst (drain_step final p2)) @ fst (drain final (fst (snd (drain_step final p)))))"
    by (rule ev_eq_append [OF assms(3) ev_eq_refl])
  then show ?thesis
    using assms True by (simp add: drain_unfold [of final p] drain_unfold [of final p2])
qed

lemma take_skip [simp]: "take (length x + k) (x @ y) = x @ take k y"
  by simp

lemma drop_skip [simp]: "drop (length x + k) (x @ y) = drop k y"
  by simp

lemma updateLastNonWhitespace_append:
  "updateLastNonWhitespace l (x @ y) = updateLastNonWhitespace (updateLastNonWhitespace l x) y"
  by (simp add: updateLastNonWhitespace_eq lastNonWhitespace_append split: option.splits)

lemma closeAgentRunBlock_events:
  "yields (fst (closeAgentRunBlock s l p)) = []"
  "Close s' \<in> set (fst (closeAgentRunBlock s l p)) \<longleftrightarrow> s' = s"
  "fst (closeAgentRunBlock s l p) = fst (closeAgentRunBlock s l q)"
  "snd (closeAgentRunBlock s l p) = p\<lparr>activeBlock := None\<rparr>"
  by (auto simp: closeAgentRunBlock_def split: option.splits)

lemma run_split_step:
  assumes act: "activeBlock p = Some (agent_run_block i s hs l)"
    and buf: "buffer p = x @ y"
    and safe: "\<forall>j<length x. \<not> occurs_at (x @ y) FENCE j"
  defines "p2 \<equiv> p\<lparr>buffer := y,
                    activeBlock := Some (agent_run_block i s hs (updateLastNonWhitespace l x))\<rparr>"
  shows "fst (snd (drain_step True p)) = fst (snd (drain_step True p2))"
    and "snd (snd (drain_step True p)) = snd (snd (drain_step True p2))"
    and "ev_eq (fst (drain_step True p)) ([Push s x] @ fst (drain_step True p2))"
proof -
  note idx = indexOf_skip [OF safe]
  have "fst (snd (drain_step True p)) = fst (snd (drain_step True p2)) \<and>
        snd (snd (drain_step True p)) = snd (snd (drain_step True p2)) \<and>
        ev_eq (fst (drain_step True p)) ([Push s x] @ fst (drain_step True p2))"
  proof (cases "indexOf y FENCE")
    case None
    then show ?thesis
      using act buf idx
      by (simp add: drain_step_active consumeActiveBlock_def consumeAgentRunBlock_def p2_def
            Let_def closeAgentRunBlock_def updateLastNonWhitespace_append ev_eq_def)
  next
    case (Some k)
    then show ?thesis
      using act buf idx
      by (simp add: drain_step_active consumeActiveBlock_def consumeAgentRunBlock_def p2_def
            Let_def closeAgentRunBlock_def updateLastNonWhitespace_append ev_eq_def)
  qed
  then show "fst (snd (drain_step True p)) = fst (snd (drain_step True p2))"
    and "snd (snd (drain_step True p)) = snd (snd (drain_step True p2))"
    and "ev_eq (fst (drain_step True p)) ([Push s x] @ fst (drain_step True p2))"
    by simp_all
qed

lemma data_split_step:
  assumes act: "activeBlock p = Some (agent_data_block s)"
    and buf: "buffer p = x @ y"
    and safe: "\<forall>j<length x. \<not> occurs_at (x @ y) FENCE j"
  defines "p2 \<equiv> p\<lparr>buffer := y\<rparr>"
  shows "fst (snd (drain_step True p)) = fst (snd (drain_step True p2))"
    and "snd (snd (drain_step True p)) = snd (snd (drain_step True p2))"
    and "ev_eq (fst (drain_step True p)) ([Push s x] @ fst (drain_step True p2))"
proof -
  note idx = indexOf_skip [OF safe]
  have "fst (snd (drain_step True p)) = fst (snd (drain_step True p2)) \<and>
        snd (snd (drain_step True p)) = snd (snd (drain_step True p2)) \<and>
        ev_eq (fst (drain_step True p)) ([Push s x] @ fst (drain_step True p2))"
  proof (cases "indexOf y FENCE")
    case None
    then show ?thesis
      using act buf idx
      by (simp add: drain_step_active consumeActiveBlock_def consumeAgentDataBlock_def p2_def
            Let_def ev_eq_def)
  next
    case (Some k)
    then show ?thesis
      using act buf idx
      by (simp add: drain_step_active consumeActiveBlock_def consumeAgentDataBlock_def p2_def
            Let_def ev_eq_def)
  qed
  then show "fst (snd (drain_step True p)) = fst (snd (drain_step True p2))"
    and "snd (snd (drain_step True p)) = snd (snd (drain_step True p2))"
    and "ev_eq (fst (drain_step True p)) ([Push s x] @ fst (drain_step True p2))"
    by simp_all
qed

lemma passthrough_split_step:
  assumes act: "activeBlock p = Some (passthrough_block s)"
    and buf: "buffer p = x @ y"
    and safe: "\<forall>j<length x. \<not> occurs_at (x @ y) FENCE j"
  defines "p2 \<equiv> p\<lparr>buffer := y\<rparr>"
  shows "fst (snd (drain_step True p)) = fst (snd (drain_step True p2))"
    and "snd (snd (drain_step True p)) = snd (snd (drain_step True p2))"
    and "ev_eq (fst (drain_step True p)) ([Push s x] @ fst (drain_step True p2))"
proof -
  note idx = indexOf_skip [OF safe]
  have "fst (snd (drain_step True p)) = fst (snd (drain_step True p2)) \<and>
        snd (snd (drain_step True p)) = snd (snd (drain_step True p2)) \<and>
        ev_eq (fst (drain_step True p)) ([Push s x] @ fst (drain_step True p2))"
  proof (cases "indexOf y FENCE")
    case None
    then show ?thesis
      using act buf idx
      by (simp add: drain_step_active consumeActiveBlock_def consumePassthroughBlock_def p2_def
            Let_def ev_eq_def)
  next
    case (Some k)
    then show ?thesis
      using act buf idx
      by (simp add: drain_step_active consumeActiveBlock_def consumePassthroughBlock_def p2_def
            Let_def ev_eq_def)
  qed
  then show "fst (snd (drain_step True p)) = fst (snd (drain_step True p2))"
    and "snd (snd (drain_step True p)) = snd (snd (drain_step True p2))"
    and "ev_eq (fst (drain_step True p)) ([Push s x] @ fst (drain_step True p2))"
    by simp_all
qed

subsection \<open>Splitting prose\<close>

lemma pushMarkdown_buffer:
  "pushMarkdown t (p\<lparr>buffer := b\<rparr>) =
     (fst (pushMarkdown t p), (snd (pushMarkdown t p))\<lparr>buffer := b\<rparr>)"
  by (simp add: pushMarkdown_def ensureMarkdownStream_def Let_def split: option.splits)

lemma closeMarkdownStream_buffer:
  "closeMarkdownStream (p\<lparr>buffer := b\<rparr>) =
     (fst (closeMarkdownStream p), (snd (closeMarkdownStream p))\<lparr>buffer := b\<rparr>)"
  by (simp add: closeMarkdownStream_def split: option.splits)

lemma pushMarkdown_Nil [simp]: "pushMarkdown [] p = ([], p)"
  by (simp add: pushMarkdown_def)

lemma pushMarkdown_split:
  assumes "\<not> (markdownStream p = None \<and> isWhitespaceOnly x)" and "x \<noteq> []"
  shows "snd (pushMarkdown (x @ y) p) = snd (pushMarkdown y (snd (pushMarkdown x p)))"
    and "ev_eq (fst (pushMarkdown (x @ y) p))
           (fst (pushMarkdown x p) @ fst (pushMarkdown y (snd (pushMarkdown x p))))"
  using assms
  by (auto simp: pushMarkdown_def ensureMarkdownStream_def Let_def ev_eq_def
      split: option.splits)

lemma pushMarkdown_leading_whitespace:
  assumes "markdownStream p = None" and "isWhitespaceOnly x"
  shows "snd (pushMarkdown (x @ u) p) = snd (pushMarkdown u p)"
    and "fst (pushMarkdown (x @ u) p) = [] \<and> fst (pushMarkdown u p) = [] \<or>
         fst (pushMarkdown (x @ u) p) =
           [Yield (MarkdownSegment (streams_created p)), Push (streams_created p) (x @ u)] \<and>
         fst (pushMarkdown u p) =
           [Yield (MarkdownSegment (streams_created p)), Push (streams_created p) u] \<and>
         streams_created (snd (pushMarkdown u p)) = Suc (streams_created p)"
  using assms
  by (auto simp: pushMarkdown_def ensureMarkdownStream_def Let_def split: option.splits)

lemma markdown_split:
  assumes idle: "activeBlock p = None"
    and buf: "buffer p = x @ y"
    and ne: "x \<noteq> []"
    and safe: "\<forall>j<length x. \<not> occurs_at (x @ y) FENCE j"
    and kept: "\<not> (markdownStream p = None \<and> isWhitespaceOnly x)"
  shows "ev_eq (fst (drain True p))
           (fst (pushMarkdown x p) @ fst (drain True ((snd (pushMarkdown x p))\<lparr>buffer := y\<rparr>)))"
proof -
  define q where "q = (snd (pushMarkdown x p))\<lparr>buffer := y\<rparr>"
  have q: "activeBlock q = None" "buffer q = y" using idle by (simp_all add: q_def)
  note idx = indexOf_skip [OF safe]
  note split = pushMarkdown_split [OF kept ne]
  have "ev_eq (fst (drain True p)) (fst (pushMarkdown x p) @ fst (drain True q))"
  proof (cases "indexOf y FENCE")
    case None
    have ip: "indexOf (buffer p) FENCE = None" using idx None buf by simp
    have L: "fst (drain True p) =
               fst (pushMarkdown (x @ y) p) @
               fst (closeMarkdownStream (snd (pushMarkdown (x @ y) p)))"
      using ne buf
      by (simp add: drain_unfold [of True p] drain_step_no_fence [OF idle ip]
            flushMarkdown_final pushMarkdown_buffer closeMarkdownStream_buffer)
    have R: "fst (drain True q) =
               fst (pushMarkdown y (snd (pushMarkdown x p))) @
               fst (closeMarkdownStream (snd (pushMarkdown y (snd (pushMarkdown x p)))))"
    proof -
      have iq: "indexOf (buffer q) FENCE = None" using None q by simp
      have "fst (drain True q) = fst (flushMarkdown True q)"
        by (simp add: drain_unfold [of True q] drain_step_no_fence [OF q(1) iq])
      then show ?thesis
        by (simp add: flushMarkdown_final pushMarkdown_buffer closeMarkdownStream_buffer q_def)
    qed
    have "ev_eq (fst (pushMarkdown (x @ y) p) @
                 fst (closeMarkdownStream (snd (pushMarkdown (x @ y) p))))
            ((fst (pushMarkdown x p) @ fst (pushMarkdown y (snd (pushMarkdown x p)))) @
                 fst (closeMarkdownStream (snd (pushMarkdown (x @ y) p))))"
      by (rule ev_eq_append [OF split(2) ev_eq_refl])
    then show ?thesis by (simp add: L R split(1))
  next
    case (Some k)
    have ip: "indexOf (buffer p) FENCE = Some (length x + k)" using idx Some buf by simp
    have pos: "length x + k > 0" using ne by simp
    show ?thesis
    proof (cases "k = 0")
      case True
      have "drain_step True p = (fst (pushMarkdown x p), q, True)"
        using buf True
        by (simp add: drain_step_fence_later [OF idle ip pos] pushMarkdown_buffer q_def)
      then have "fst (drain True p) = fst (pushMarkdown x p) @ fst (drain True q)"
        by (simp add: drain_unfold [of True p])
      then show ?thesis by simp
    next
      case False
      define Q where "Q = (snd (pushMarkdown (x @ take k y) p))\<lparr>buffer := drop k y\<rparr>"
      have iq: "indexOf (buffer q) FENCE = Some k" using Some q by simp
      have "drain_step True p = (fst (pushMarkdown (x @ take k y) p), Q, True)"
        using buf
        by (simp add: drain_step_fence_later [OF idle ip pos] pushMarkdown_buffer Q_def)
      then have L: "fst (drain True p) = fst (pushMarkdown (x @ take k y) p) @ fst (drain True Q)"
        by (simp add: drain_unfold [of True p])
      have kpos: "k > 0" using False by simp
      have "drain_step True q = (fst (pushMarkdown (take k y) (snd (pushMarkdown x p))), Q, True)"
        unfolding drain_step_fence_later [OF q(1) iq kpos]
        using split(1) [of "take k y"]
        by (simp add: pushMarkdown_buffer Q_def q_def)
      then have R: "fst (drain True q) =
          fst (pushMarkdown (take k y) (snd (pushMarkdown x p))) @ fst (drain True Q)"
        by (simp add: drain_unfold [of True q])
      have "ev_eq (fst (pushMarkdown (x @ take k y) p) @ fst (drain True Q))
              ((fst (pushMarkdown x p) @ fst (pushMarkdown (take k y) (snd (pushMarkdown x p)))) @
               fst (drain True Q))"
        by (rule ev_eq_append [OF split(2) ev_eq_refl])
      then show ?thesis by (simp add: L R)
    qed
  qed
  then show ?thesis by (simp add: q_def)
qed

lemma sim_pushMarkdown_whitespace:
  assumes md: "markdownStream p = None" and ws: "isWhitespaceOnly x"
    and below: "streams_below (streams_created p) E"
    and later: "yields_from (streams_created (snd (pushMarkdown u p))) D"
  shows "sim (E @ fst (pushMarkdown (x @ u) p) @ D) (E @ fst (pushMarkdown u p) @ D)"
proof -
  consider "fst (pushMarkdown (x @ u) p) = []" "fst (pushMarkdown u p) = []"
    | "fst (pushMarkdown (x @ u) p) =
         [Yield (MarkdownSegment (streams_created p)), Push (streams_created p) (x @ u)]"
      "fst (pushMarkdown u p) =
         [Yield (MarkdownSegment (streams_created p)), Push (streams_created p) u]"
      "streams_created (snd (pushMarkdown u p)) = Suc (streams_created p)"
    using pushMarkdown_leading_whitespace(2) [OF md ws, of u] by blast
  then show ?thesis
  proof cases
    case 1
    then show ?thesis by simp
  next
    case 2
    have "yields_from (Suc (streams_created p)) D" using later 2(3) by simp
    then show ?thesis
      using sim_leading_whitespace [OF below _ ws, of D u] 2(1,2) by simp
  qed
qed

lemma whitespace_drop:
  assumes idle: "activeBlock p = None" and md: "markdownStream p = None"
    and buf: "buffer p = x @ r" and ws: "isWhitespaceOnly x"
    and wf: "parser_wf p" and below: "streams_below (streams_created p) E"
  shows "sim (E @ fst (drain True p)) (E @ fst (drain True (p\<lparr>buffer := r\<rparr>)))"
proof (cases "x = []")
  case True
  then have "p\<lparr>buffer := r\<rparr> = p" using buf by simp
  then show ?thesis by simp
next
  case ne: False
  define q where "q = p\<lparr>buffer := r\<rparr>"
  have q: "activeBlock q = None" "buffer q = r" using idle by (simp_all add: q_def)
  have safe: "\<forall>j<length x. \<not> occurs_at (x @ r) FENCE j"
    using safe_prefix_whitespace [OF ws] by blast
  note idx = indexOf_skip [OF safe]
  note same = pushMarkdown_leading_whitespace(1) [OF md ws]
  have "sim (E @ fst (drain True p)) (E @ fst (drain True q))"
  proof (cases "indexOf r FENCE")
    case None
    have ip: "indexOf (buffer p) FENCE = None" using idx None buf by simp
    have iq: "indexOf (buffer q) FENCE = None" using None q by simp
    define C where "C = fst (closeMarkdownStream (snd (pushMarkdown r p)))"
    have L: "fst (drain True p) = fst (pushMarkdown (x @ r) p) @ C"
      using ne buf
      by (simp add: drain_unfold [of True p] drain_step_no_fence [OF idle ip]
            flushMarkdown_final pushMarkdown_buffer closeMarkdownStream_buffer same C_def)
    have "fst (drain True q) = fst (flushMarkdown True q)"
      by (simp add: drain_unfold [of True q] drain_step_no_fence [OF q(1) iq])
    then have R: "fst (drain True q) = fst (pushMarkdown r p) @ C"
      by (simp add: flushMarkdown_final pushMarkdown_buffer closeMarkdownStream_buffer q_def
            C_def)
    have "yields_from (streams_created (snd (pushMarkdown r p))) C"
      by (simp add: C_def yields_from_no_yield)
    then show ?thesis
      unfolding L R by (rule sim_pushMarkdown_whitespace [OF md ws below])
  next
    case (Some k)
    have ip: "indexOf (buffer p) FENCE = Some (length x + k)" using idx Some buf by simp
    have iq: "indexOf (buffer q) FENCE = Some k" using Some q by simp
    have pos: "length x + k > 0" using ne by simp
    show ?thesis
    proof (cases "k = 0")
      case True
      have "fst (pushMarkdown x p) = []" "snd (pushMarkdown x p) = p"
        using md ws by (simp_all add: pushMarkdown_def)
      then have "drain_step True p = ([], q, True)"
        using buf True
        by (simp add: drain_step_fence_later [OF idle ip pos] pushMarkdown_buffer q_def)
      then have "fst (drain True p) = fst (drain True q)"
        by (simp add: drain_unfold [of True p])
      then show ?thesis by simp
    next
      case False
      then have kpos: "k > 0" by simp
      define Q where "Q = (snd (pushMarkdown (take k r) p))\<lparr>buffer := drop k r\<rparr>"
      have "drain_step True p = (fst (pushMarkdown (x @ take k r) p), Q, True)"
        using buf
        by (simp add: drain_step_fence_later [OF idle ip pos] pushMarkdown_buffer Q_def same)
      then have L: "fst (drain True p) = fst (pushMarkdown (x @ take k r) p) @ fst (drain True Q)"
        by (simp add: drain_unfold [of True p])
      have "drain_step True q = (fst (pushMarkdown (take k r) p), Q, True)"
        unfolding drain_step_fence_later [OF q(1) iq kpos]
        by (simp add: pushMarkdown_buffer Q_def q_def)
      then have R: "fst (drain True q) = fst (pushMarkdown (take k r) p) @ fst (drain True Q)"
        by (simp add: drain_unfold [of True q])
      have "parser_wf Q" using pushMarkdown_wf(1) [OF wf, of "take k r"] by (simp add: Q_def)
      then have "yields_from (streams_created Q) (fst (drain True Q))"
        by (rule drain_yields_from)
      then have "yields_from (streams_created (snd (pushMarkdown (take k r) p)))
                   (fst (drain True Q))"
        by (simp add: Q_def)
      then show ?thesis
        unfolding L R by (rule sim_pushMarkdown_whitespace [OF md ws below])
    qed
  qed
  then show ?thesis by (simp add: q_def)
qed

subsection \<open>A turn before the rest of the text has come\<close>

lemma append_text_eq: "append_text t p = p\<lparr>buffer := buffer p @ t\<rparr>"
  by (simp add: append_text_def)

lemma append_text_fields [simp]:
  "buffer (append_text t p) = buffer p @ t"
  "activeBlock (append_text t p) = activeBlock p"
  "markdownStream (append_text t p) = markdownStream p"
  "streams_created (append_text t p) = streams_created p"
  "blockIndex (append_text t p) = blockIndex p"
  by (simp_all add: append_text_eq)

lemma parser_wf_append_text [simp]: "parser_wf (append_text t p) = parser_wf p"
  by (simp add: append_text_eq)

lemma committed_block:
  assumes act: "activeBlock p = Some block" and idx: "indexOf (buffer p) FENCE = Some k"
  shows "drain_step True (append_text t p) =
           (fst (drain_step False p), append_text t (fst (snd (drain_step False p))), True)"
proof -
  have k: "k + 3 \<le> length (buffer p)" using indexOf_bound [OF idx] by simp
  have idx': "indexOf (buffer p @ t) FENCE = Some k" by (rule indexOf_append_found [OF idx])
  show ?thesis
    using act idx idx' k
    by (cases block)
       (simp_all add: drain_step_active consumeActiveBlock_def consumeAgentRunBlock_def
          consumeAgentDataBlock_def consumePassthroughBlock_def closeAgentRunBlock_def Let_def
          append_text_eq)
qed

lemma committed_prose:
  assumes idle: "activeBlock p = None" and idx: "indexOf (buffer p) FENCE = Some k"
    and pos: "k > 0"
  shows "drain_step True (append_text t p) =
           (fst (drain_step False p), append_text t (fst (snd (drain_step False p))), True)"
proof -
  have k: "k + 3 \<le> length (buffer p)" using indexOf_bound [OF idx] by simp
  have idx': "indexOf (buffer (append_text t p)) FENCE = Some k"
    using indexOf_append_found [OF idx] by simp
  have idle': "activeBlock (append_text t p) = None" using idle by simp
  show ?thesis
    unfolding drain_step_fence_later [OF idle' idx' pos] drain_step_fence_later [OF idle idx pos]
    using k by (simp add: pushMarkdown_buffer append_text_eq)
qed

lemma header_step_cong:
  assumes r: "stripCarriageReturn (take (h - 3) (drop 3 (buffer q))) =
              stripCarriageReturn (take (h - 3) (drop 3 (buffer p)))"
    and b: "q\<lparr>buffer := drop (h + 1) (buffer q)\<rparr> =
            (p\<lparr>buffer := drop (h + 1) (buffer p)\<rparr>)\<lparr>buffer := B\<rparr>"
    and B: "B = drop (h + 1) (buffer p) @ t"
  shows "header_step h q =
           (fst (header_step h p), append_text t (fst (snd (header_step h p))), True)"
proof -
  define rawHeader where "rawHeader = stripCarriageReturn (take (h - 3) (drop 3 (buffer p)))"
  define p1 where "p1 = p\<lparr>buffer := drop (h + 1) (buffer p)\<rparr>"
  have e: "ensureMarkdownStream (q\<lparr>buffer := c\<rparr>) =
             (fst (ensureMarkdownStream q), fst (snd (ensureMarkdownStream q)),
              (snd (snd (ensureMarkdownStream q)))\<lparr>buffer := c\<rparr>)" for q c
    by (simp add: ensureMarkdownStream_def Let_def split: option.splits)
  have o: "openBlock info (q\<lparr>buffer := c\<rparr>) =
             (fst (openBlock info q), (snd (openBlock info q))\<lparr>buffer := c\<rparr>)" for info q c
    by (simp add: openBlock_def Let_def split: BlockInfo.splits)
  have bo: "buffer (snd (openBlock info q)) = buffer q" for info q
    by (simp add: openBlock_def Let_def split: BlockInfo.splits)
  have b1: "buffer p1 = drop (h + 1) (buffer p)" by (simp add: p1_def)
  have L: "header_step h q =
     (case parseHeader (trim rawHeader) rawHeader of
           None \<Rightarrow>
             (fst (snd (ensureMarkdownStream (p1\<lparr>buffer := B\<rparr>))) @
                [Push (fst (ensureMarkdownStream (p1\<lparr>buffer := B\<rparr>))) (FENCE @ rawHeader @ [10])],
              (snd (snd (ensureMarkdownStream (p1\<lparr>buffer := B\<rparr>))))\<lparr>activeBlock :=
                 Some (passthrough_block (fst (ensureMarkdownStream (p1\<lparr>buffer := B\<rparr>))))\<rparr>,
              True)
         | Some blockInfo \<Rightarrow>
             (fst (closeMarkdownStream (p1\<lparr>buffer := B\<rparr>)) @
                [Yield (fst (openBlock blockInfo (snd (closeMarkdownStream (p1\<lparr>buffer := B\<rparr>)))))],
              snd (openBlock blockInfo (snd (closeMarkdownStream (p1\<lparr>buffer := B\<rparr>)))),
              True))"
    unfolding header_step_def Let_def r b rawHeader_def p1_def ..
  have R: "header_step h p =
     (case parseHeader (trim rawHeader) rawHeader of
           None \<Rightarrow>
             (fst (snd (ensureMarkdownStream p1)) @
                [Push (fst (ensureMarkdownStream p1)) (FENCE @ rawHeader @ [10])],
              (snd (snd (ensureMarkdownStream p1)))\<lparr>activeBlock :=
                 Some (passthrough_block (fst (ensureMarkdownStream p1)))\<rparr>,
              True)
         | Some blockInfo \<Rightarrow>
             (fst (closeMarkdownStream p1) @
                [Yield (fst (openBlock blockInfo (snd (closeMarkdownStream p1))))],
              snd (openBlock blockInfo (snd (closeMarkdownStream p1))),
              True))"
    unfolding header_step_def Let_def rawHeader_def p1_def ..
  show ?thesis
  proof (cases "parseHeader (trim rawHeader) rawHeader")
    case None
    then show ?thesis
      unfolding L R by (simp add: e append_text_eq B b1)
  next
    case (Some blockInfo)
    then show ?thesis
      unfolding L R by (simp add: o bo closeMarkdownStream_buffer append_text_eq B b1)
  qed
qed

lemma header_step_append:
  assumes "h + 1 \<le> length (buffer p)"
  shows "header_step h (append_text t p) =
           (fst (header_step h p), append_text t (fst (snd (header_step h p))), True)"
  using assms by (intro header_step_cong) (simp_all add: append_text_eq)

lemma committed_header:
  assumes idle: "activeBlock p = None" and idx: "indexOf (buffer p) FENCE = Some 0"
    and nl: "indexOfFrom (buffer p) [10] 3 = Some h"
  shows "drain_step True (append_text t p) =
           (fst (drain_step False p), append_text t (fst (snd (drain_step False p))), True)"
proof -
  have k: "3 \<le> length (buffer p)" using indexOf_bound [OF idx] by simp
  have h: "h + 1 \<le> length (buffer p)" using indexOfFrom_bound [OF nl k] by simp
  have idx': "indexOf (buffer (append_text t p)) FENCE = Some 0"
    using indexOf_append_found [OF idx] by simp
  have nl': "indexOfFrom (buffer (append_text t p)) [10] 3 = Some h"
    using indexOfFrom_append_found [OF nl k] by simp
  have idle': "activeBlock (append_text t p) = None" using idle by simp
  show ?thesis
    unfolding drain_step_header [OF idle' idx' nl'] drain_step_header [OF idle idx nl]
    by (rule header_step_append [OF h])
qed

lemma committed_commutes:
  assumes "drain_step True (append_text t p) =
           (fst (drain_step False p), append_text t (fst (snd (drain_step False p))), True)"
  shows "fst (drain True (append_text t p)) =
         fst (drain_step False p) @
         fst (drain True (append_text t (fst (snd (drain_step False p)))))"
  by (simp add: drain_unfold [of True "append_text t p"] assms)

lemma tentative_run:
  assumes act: "activeBlock p = Some (agent_run_block i s hs l)"
    and idx: "indexOf (buffer p) FENCE = None"
  shows "drain_step False p =
           (if length (buffer p) > 2
            then ([Push s (take (length (buffer p) - 2) (buffer p))],
                  p\<lparr>buffer := drop (length (buffer p) - 2) (buffer p),
                    activeBlock := Some (agent_run_block i s hs
                      (updateLastNonWhitespace l (take (length (buffer p) - 2) (buffer p))))\<rparr>,
                  True)
            else ([], p, False))"
proof -
  have "p\<lparr>activeBlock := activeBlock p\<rparr> = p" by simp
  then have same: "p\<lparr>activeBlock := Some (agent_run_block i s hs l)\<rparr> = p"
    using act by simp
  show ?thesis
    using act idx same
    by (simp add: drain_step_active consumeActiveBlock_def consumeAgentRunBlock_def Let_def)
qed

lemma tentative_data:
  assumes act: "activeBlock p = Some (agent_data_block s)"
    and idx: "indexOf (buffer p) FENCE = None"
  shows "drain_step False p =
           (if length (buffer p) > 2
            then ([Push s (take (length (buffer p) - 2) (buffer p))],
                  p\<lparr>buffer := drop (length (buffer p) - 2) (buffer p)\<rparr>, True)
            else ([], p, False))"
  using act idx
  by (simp add: drain_step_active consumeActiveBlock_def consumeAgentDataBlock_def Let_def)

lemma tentative_passthrough:
  assumes act: "activeBlock p = Some (passthrough_block s)"
    and idx: "indexOf (buffer p) FENCE = None"
  shows "drain_step False p =
           (let n = length (buffer p) - min (countTrailingBackticks (buffer p)) MAX_TAIL
            in if n > 0
               then ([Push s (take n (buffer p))], p\<lparr>buffer := drop n (buffer p)\<rparr>, True)
               else ([], p, False))"
  using act idx
  by (auto simp: drain_step_active consumeActiveBlock_def consumePassthroughBlock_def Let_def)

lemma tentative_prose:
  assumes idle: "activeBlock p = None" and idx: "indexOf (buffer p) FENCE = None"
  shows "drain_step False p =
           (let n = length (buffer p) - min (countTrailingBackticks (buffer p)) MAX_TAIL
            in (fst (pushMarkdown (take n (buffer p)) p),
                (snd (pushMarkdown (take n (buffer p)) p))\<lparr>buffer := drop n (buffer p)\<rparr>,
                False))"
  by (simp add: drain_step_no_fence [OF idle idx] flushMarkdown_not_final Let_def
      pushMarkdown_buffer)

lemma step_same:
  assumes "drain_step False p = ([], p, c)"
  shows "sim (E @ fst (drain True (append_text t p)))
             (E @ fst (drain_step False p) @
              fst (drain True (append_text t (fst (snd (drain_step False p))))))"
  by (simp add: assms)

lemma step_committed:
  assumes "drain_step True (append_text t p) =
           (fst (drain_step False p), append_text t (fst (snd (drain_step False p))), True)"
  shows "sim (E @ fst (drain True (append_text t p)))
             (E @ fst (drain_step False p) @
              fst (drain True (append_text t (fst (snd (drain_step False p))))))"
  by (simp add: committed_commutes [OF assms])

lemma step_split:
  assumes e: "fst (drain_step False p) = pre"
    and q: "append_text t (fst (snd (drain_step False p))) = p2"
    and 1: "fst (snd (drain_step True (append_text t p))) = fst (snd (drain_step True p2))"
    and 2: "snd (snd (drain_step True (append_text t p))) = snd (snd (drain_step True p2))"
    and 3: "ev_eq (fst (drain_step True (append_text t p))) (pre @ fst (drain_step True p2))"
  shows "sim (E @ fst (drain True (append_text t p)))
             (E @ fst (drain_step False p) @
              fst (drain True (append_text t (fst (snd (drain_step False p))))))"
  unfolding e q by (rule ev_eq_sim_context [OF drain_split [OF 1 2 3]])

lemma step_commutes_run:
  assumes act: "activeBlock p = Some (agent_run_block i s hs l)"
  shows "sim (E @ fst (drain True (append_text t p)))
             (E @ fst (drain_step False p) @
              fst (drain True (append_text t (fst (snd (drain_step False p))))))"
proof (cases "indexOf (buffer p) FENCE")
  case (Some k)
  show ?thesis by (rule step_committed [OF committed_block [OF act Some]])
next
  case None
  note st = tentative_run [OF act None]
  show ?thesis
  proof (cases "length (buffer p) > 2")
    case False
    then show ?thesis using st by (intro step_same [of p False]) simp
  next
    case True
    define n where "n = length (buffer p) - 2"
    define x where "x = take n (buffer p)"
    define y where "y = drop n (buffer p) @ t"
    have lx: "length x = n" by (simp add: x_def n_def)
    have xy: "x @ y = buffer p @ t" by (simp add: x_def y_def)
    have act': "activeBlock (append_text t p) = Some (agent_run_block i s hs l)"
      using act by simp
    have buf: "buffer (append_text t p) = x @ y" using xy by simp
    have safe: "\<forall>j<length x. \<not> occurs_at (x @ y) FENCE j"
      unfolding xy lx n_def using safe_prefix_blocks [OF None] by blast
    have e: "fst (drain_step False p) = [Push s x]"
      using st True by (simp add: x_def n_def)
    have q: "append_text t (fst (snd (drain_step False p))) =
             (append_text t p)\<lparr>buffer := y,
                activeBlock := Some (agent_run_block i s hs (updateLastNonWhitespace l x))\<rparr>"
      using st True by (simp add: x_def y_def n_def append_text_eq)
    show ?thesis
      by (rule step_split [OF e q run_split_step [OF act' buf safe]])
  qed
qed

lemma step_commutes_data:
  assumes act: "activeBlock p = Some (agent_data_block s)"
  shows "sim (E @ fst (drain True (append_text t p)))
             (E @ fst (drain_step False p) @
              fst (drain True (append_text t (fst (snd (drain_step False p))))))"
proof (cases "indexOf (buffer p) FENCE")
  case (Some k)
  show ?thesis by (rule step_committed [OF committed_block [OF act Some]])
next
  case None
  note st = tentative_data [OF act None]
  show ?thesis
  proof (cases "length (buffer p) > 2")
    case False
    then show ?thesis using st by (intro step_same [of p False]) simp
  next
    case True
    define n where "n = length (buffer p) - 2"
    define x where "x = take n (buffer p)"
    define y where "y = drop n (buffer p) @ t"
    have lx: "length x = n" by (simp add: x_def n_def)
    have xy: "x @ y = buffer p @ t" by (simp add: x_def y_def)
    have act': "activeBlock (append_text t p) = Some (agent_data_block s)"
      using act by simp
    have buf: "buffer (append_text t p) = x @ y" using xy by simp
    have safe: "\<forall>j<length x. \<not> occurs_at (x @ y) FENCE j"
      unfolding xy lx n_def using safe_prefix_blocks [OF None] by blast
    have e: "fst (drain_step False p) = [Push s x]"
      using st True by (simp add: x_def n_def)
    have q: "append_text t (fst (snd (drain_step False p))) = (append_text t p)\<lparr>buffer := y\<rparr>"
      using st True by (simp add: x_def y_def n_def append_text_eq)
    show ?thesis
      by (rule step_split [OF e q data_split_step [OF act' buf safe]])
  qed
qed

lemma step_commutes_passthrough:
  assumes act: "activeBlock p = Some (passthrough_block s)"
  shows "sim (E @ fst (drain True (append_text t p)))
             (E @ fst (drain_step False p) @
              fst (drain True (append_text t (fst (snd (drain_step False p))))))"
proof (cases "indexOf (buffer p) FENCE")
  case (Some k)
  show ?thesis by (rule step_committed [OF committed_block [OF act Some]])
next
  case None
  note st = tentative_passthrough [OF act None]
  define n where "n = length (buffer p) - min (countTrailingBackticks (buffer p)) 2"
  show ?thesis
  proof (cases "n > 0")
    case False
    then show ?thesis
      using st by (intro step_same [of p False]) (simp add: n_def Let_def)
  next
    case True
    define x where "x = take n (buffer p)"
    define y where "y = drop n (buffer p) @ t"
    have lx: "length x = n" by (simp add: x_def n_def)
    have xy: "x @ y = buffer p @ t" by (simp add: x_def y_def)
    have act': "activeBlock (append_text t p) = Some (passthrough_block s)"
      using act by simp
    have buf: "buffer (append_text t p) = x @ y" using xy by simp
    have safe: "\<forall>j<length x. \<not> occurs_at (x @ y) FENCE j"
      unfolding xy lx n_def using safe_prefix_markdown [OF None] by simp
    have e: "fst (drain_step False p) = [Push s x]"
      using st True by (simp add: x_def n_def Let_def)
    have q: "append_text t (fst (snd (drain_step False p))) = (append_text t p)\<lparr>buffer := y\<rparr>"
      using st True by (simp add: x_def y_def n_def Let_def append_text_eq)
    show ?thesis
      by (rule step_split [OF e q passthrough_split_step [OF act' buf safe]])
  qed
qed

lemma step_commutes_prose:
  assumes idle: "activeBlock p = None" and none: "indexOf (buffer p) FENCE = None"
    and wf: "parser_wf p" and below: "streams_below (streams_created p) E"
  shows "sim (E @ fst (drain True (append_text t p)))
             (E @ fst (drain_step False p) @
              fst (drain True (append_text t (fst (snd (drain_step False p))))))"
proof -
  note st = tentative_prose [OF idle none]
  define n where "n = length (buffer p) - min (countTrailingBackticks (buffer p)) 2"
  define x where "x = take n (buffer p)"
  define y where "y = drop n (buffer p) @ t"
  have lx: "length x = n" by (simp add: x_def n_def)
  have xy: "x @ y = buffer p @ t" by (simp add: x_def y_def)
  have idle': "activeBlock (append_text t p) = None" using idle by simp
  have buf: "buffer (append_text t p) = x @ y" using xy by simp
  have safe: "\<forall>j<length x. \<not> occurs_at (x @ y) FENCE j"
    unfolding xy lx n_def using safe_prefix_markdown [OF none] by simp
  have e: "fst (drain_step False p) = fst (pushMarkdown x p)"
    using st by (simp add: x_def n_def Let_def)
  have q: "append_text t (fst (snd (drain_step False p))) =
           (snd (pushMarkdown x p))\<lparr>buffer := y\<rparr>"
    using st by (simp add: x_def y_def n_def Let_def append_text_eq)
  show ?thesis
  proof (cases "x = []")
    case True
    have y: "y = buffer p @ t" using xy True by simp
    show ?thesis
      unfolding e q by (simp add: True y append_text_eq)
  next
    case ne: False
    show ?thesis
    proof (cases "markdownStream p = None \<and> isWhitespaceOnly x")
      case True
      then have pm: "pushMarkdown x p = ([], p)" by (simp add: pushMarkdown_def)
      have "sim (E @ fst (drain True (append_text t p)))
                (E @ fst (drain True ((append_text t p)\<lparr>buffer := y\<rparr>)))"
        using True wf below
        by (intro whitespace_drop [OF idle' _ buf]) simp_all
      then show ?thesis
        unfolding e q by (simp add: pm append_text_eq)
    next
      case False
      then have kept: "\<not> (markdownStream (append_text t p) = None \<and> isWhitespaceOnly x)"
        by simp
      have "ev_eq (fst (drain True (append_text t p)))
              (fst (pushMarkdown x (append_text t p)) @
               fst (drain True ((snd (pushMarkdown x (append_text t p)))\<lparr>buffer := y\<rparr>)))"
        by (rule markdown_split [OF idle' buf ne safe kept])
      then have "ev_eq (fst (drain True (append_text t p)))
              (fst (pushMarkdown x p) @ fst (drain True ((snd (pushMarkdown x p))\<lparr>buffer := y\<rparr>)))"
        by (simp add: append_text_eq pushMarkdown_buffer)
      then show ?thesis
        unfolding e q by (rule ev_eq_sim_context)
    qed
  qed
qed

lemma step_commutes:
  assumes wf: "parser_wf p" and below: "streams_below (streams_created p) E"
  shows "sim (E @ fst (drain True (append_text t p)))
             (E @ fst (drain_step False p) @
              fst (drain True (append_text t (fst (snd (drain_step False p))))))"
proof (cases "activeBlock p")
  case (Some block)
  then show ?thesis
    by (cases block)
       (simp_all only: step_commutes_run step_commutes_data step_commutes_passthrough)
next
  case None
  show ?thesis
  proof (cases "indexOf (buffer p) FENCE")
    case no: None
    show ?thesis by (rule step_commutes_prose [OF None no wf below])
  next
    case (Some k)
    show ?thesis
    proof (cases "k > 0")
      case True
      show ?thesis by (rule step_committed [OF committed_prose [OF None Some True]])
    next
      case False
      then have k: "indexOf (buffer p) FENCE = Some 0" using Some by simp
      show ?thesis
      proof (cases "indexOfFrom (buffer p) [10] 3")
        case nl: None
        have "drain_step False p = ([], p, False)"
          by (simp add: drain_step_fence_open [OF None k nl])
        then show ?thesis by (rule step_same)
      next
        case (Some h)
        show ?thesis by (rule step_committed [OF committed_header [OF None k Some]])
      qed
    qed
  qed
qed

lemma drain_commutes:
  assumes "parser_wf p" and "streams_below (streams_created p) E"
  shows "sim (E @ fst (drain True (append_text t p)))
             (E @ fst (drain False p) @ fst (drain True (append_text t (snd (drain False p)))))"
  using assms
proof (induction p arbitrary: E rule: drain_induct [where final = False])
  case (step p)
  note st = step_commutes [OF step.prems, of t]
  note wf = drain_step_wf [OF step.prems(1), of False]
  show ?case
  proof (cases "snd (snd (drain_step False p))")
    case False
    then show ?thesis using st by (simp add: drain_unfold [of False p])
  next
    case True
    have below': "streams_below (streams_created (fst (snd (drain_step False p))))
                    (E @ fst (drain_step False p))"
      using step.prems(2) wf by (auto intro: streams_below_mono)
    have "sim ((E @ fst (drain_step False p)) @
                 fst (drain True (append_text t (fst (snd (drain_step False p))))))
              ((E @ fst (drain_step False p)) @
                 fst (drain False (fst (snd (drain_step False p)))) @
                 fst (drain True (append_text t (snd (drain False (fst (snd (drain_step False p))))))))"
      using wf below' by (intro step.IH [OF True]) simp_all
    then show ?thesis
      using True sim_trans [OF st] by (simp add: drain_unfold [of False p])
  qed
qed

lemma append_text_append: "append_text (a @ b) p = append_text b (append_text a p)"
  by (simp add: append_text_eq)

lemma chunks_commute:
  assumes "parser_wf p" and "streams_below (streams_created p) E"
  shows "sim (E @ fst (drain True (append_text (concat chunks) p)))
             (E @ fst (parse_chunks chunks p) @ fst (drain True (snd (parse_chunks chunks p))))"
  using assms
proof (induction chunks arbitrary: p E)
  case Nil
  then show ?case by (simp add: append_text_eq)
next
  case (Cons chunk chunks)
  define p0 where "p0 = append_text chunk p"
  define e1 where "e1 = fst (drain False p0)"
  define p1 where "p1 = snd (drain False p0)"
  have wf0: "parser_wf p0" and below0: "streams_below (streams_created p0) E"
    using Cons.prems by (simp_all add: p0_def)
  note d = drain_wf [OF wf0, of False]
  have wf1: "parser_wf p1" and below1: "streams_below (streams_created p1) (E @ e1)"
    using d below0 by (auto simp: p1_def e1_def intro: streams_below_mono)
  have 1: "sim (E @ fst (drain True (append_text (concat chunks) p0)))
               (E @ e1 @ fst (drain True (append_text (concat chunks) p1)))"
    unfolding e1_def p1_def by (rule drain_commutes [OF wf0 below0])
  have 2: "sim ((E @ e1) @ fst (drain True (append_text (concat chunks) p1)))
               ((E @ e1) @ fst (parse_chunks chunks p1) @
                fst (drain True (snd (parse_chunks chunks p1))))"
    by (rule Cons.IH [OF wf1 below1])
  have "sim (E @ fst (drain True (append_text (concat chunks) p0)))
            (E @ e1 @ fst (parse_chunks chunks p1) @ fst (drain True (snd (parse_chunks chunks p1))))"
    using sim_trans [OF 1] 2 by simp
  then show ?case
    by (simp add: append_text_append p0_def e1_def p1_def case_prod_beta)
qed

lemma parse_one_shot:
  "sim (fst (drain True (append_text (concat chunks) new_parser))) (parse chunks)"
proof -
  have "parser_wf new_parser" "streams_below (streams_created new_parser) []"
    by (simp_all add: new_parser_def parser_wf_def)
  then show ?thesis
    using chunks_commute [of new_parser "[]" chunks] by (simp add: parse_def case_prod_beta)
qed

text \<open>
  C1, amended. For every text and every two ways of splitting it into chunks, the parser
  yields the same sequence of segments: the same kinds in the same order, the same block
  indices and streamed-data identifiers, identical bodies of the code and data segments,
  and bodies of the prose segments that are identical once the leading white space (space,
  tab, line feed, carriage return, U+200B) of each is removed.
\<close>

theorem chunk_invariance_up_to_leading_whitespace:
  assumes "concat chunks1 = concat chunks2"
  shows "map trim_leading (segments (parse chunks1)) =
         map trim_leading (segments (parse chunks2))"
  using parse_one_shot [of chunks1] parse_one_shot [of chunks2] assms
  by (simp add: sim_def)

theorem chunk_invariance_up_to_leading_whitespace_witness:
  "concat [str ''Hi\<newline>``'', str ''`tsx agent.run\<newline>f()'', str ''\<newline>```'', str '' bye''] =
     concat [str ''Hi\<newline>```tsx agent.run\<newline>f()\<newline>``` bye''] \<and>
   map trim_leading
     (segments (parse [str ''Hi\<newline>``'', str ''`tsx agent.run\<newline>f()'', str ''\<newline>```'', str '' bye''])) =
   map trim_leading
     (segments (parse [str ''Hi\<newline>```tsx agent.run\<newline>f()\<newline>``` bye'']))"
proof -
  have "concat [str ''Hi\<newline>``'', str ''`tsx agent.run\<newline>f()'', str ''\<newline>```'', str '' bye''] =
        concat [str ''Hi\<newline>```tsx agent.run\<newline>f()\<newline>``` bye'']"
    by (simp add: str_def)
  then show ?thesis
    using chunk_invariance_up_to_leading_whitespace
      [of "[str ''Hi\<newline>``'', str ''`tsx agent.run\<newline>f()'', str ''\<newline>```'', str '' bye'']"
          "[str ''Hi\<newline>```tsx agent.run\<newline>f()\<newline>``` bye'']"]
    by simp
qed

text \<open>
  C1 as stated fails: white space that comes as a chunk of its own before any prose is
  dropped by \<open>pushMarkdown\<close>, and kept when it comes in one chunk with the prose.
\<close>

theorem leading_whitespace_depends_on_chunks:
  "concat [str ''  '', str ''hello''] = concat [str ''  hello''] \<and>
   segments (parse [str ''  '', str ''hello'']) = [Prose (str ''hello'')] \<and>
   segments (parse [str ''  hello'']) = [Prose (str ''  hello'')]"
  by code_simp

section \<open>The parser closes a stream before it yields the next segment\<close>

lemma yields_Nil_decomp:
  assumes "yields e = []" and "E @ e = A @ Yield seg # B"
  shows "\<exists>B'. E = A @ Yield seg # B'"
  using assms
proof (induction e arbitrary: B rule: rev_induct)
  case Nil
  then show ?case by simp
next
  case (snoc x xs)
  have yx: "yields xs = []" and x: "yields [x] = []"
    using snoc.prems(1) by simp_all
  show ?case
  proof (cases B rule: rev_cases)
    case Nil
    then have "x = Yield seg" using snoc.prems(2) by simp
    then show ?thesis using x by simp
  next
    case (snoc B' y)
    then have "E @ xs = A @ Yield seg # B'" using snoc.prems(2) by simp
    then show ?thesis using snoc.IH [OF yx] by blast
  qed
qed

lemma closes_before_yields_no_yield:
  assumes "closes_before_yields E" and "yields e = []"
  shows "closes_before_yields (E @ e)"
  unfolding closes_before_yields_def
proof (intro allI impI)
  fix A seg B
  assume "E @ e = A @ Yield seg # B"
  then obtain B' where "E = A @ Yield seg # B'"
    using yields_Nil_decomp [OF assms(2)] by blast
  then show "\<forall>earlier \<in> set (yields A). Close (stream_of earlier) \<in> set A"
    using assms(1) by (simp add: closes_before_yields_def)
qed

lemma closes_before_yields_snoc:
  assumes "closes_before_yields E"
    and "\<forall>earlier \<in> set (yields E). Close (stream_of earlier) \<in> set E"
  shows "closes_before_yields (E @ [Yield seg])"
  unfolding closes_before_yields_def
proof (intro allI impI)
  fix A seg' B
  assume eq: "E @ [Yield seg] = A @ Yield seg' # B"
  show "\<forall>earlier \<in> set (yields A). Close (stream_of earlier) \<in> set A"
  proof (cases B rule: rev_cases)
    case Nil
    then have "A = E" using eq by simp
    then show ?thesis using assms(2) by simp
  next
    case (snoc B' y)
    then have "E = A @ Yield seg' # B'" using eq by simp
    then show ?thesis using assms(1) by (simp add: closes_before_yields_def)
  qed
qed

lemma turn_inv_step:
  assumes inv: "turn_inv E p" and ok: "step_ok p e p'"
    and wf: "parser_wf p'" and below: "streams_below (streams_created p') (E @ e)"
  shows "turn_inv (E @ e) p'"
proof -
  have old: "Close (stream_of seg) \<in> set (E @ e) \<or> stream_of seg \<in> open_streams p'"
    if "seg \<in> set (yields E)" for seg
    using inv ok that by (auto simp: turn_inv_def step_ok_def)
  have new: "Close (stream_of seg) \<in> set (E @ e) \<or> stream_of seg \<in> open_streams p'"
    if "seg \<in> set (yields e)" for seg
    using ok that by (auto simp: step_ok_def)
  have cby: "closes_before_yields (E @ e)"
  proof (cases "yields e = []")
    case True
    then show ?thesis using inv by (simp add: turn_inv_def closes_before_yields_no_yield)
  next
    case False
    then obtain c seg r where e: "e = c @ Yield seg # r" and c: "yields c = []"
      and r: "yields r = []" and closed: "\<forall>s \<in> open_streams p. Close s \<in> set c"
      using ok by (auto simp: step_ok_def)
    have 1: "closes_before_yields (E @ c)"
      using inv c by (simp add: turn_inv_def closes_before_yields_no_yield)
    have 2: "\<forall>earlier \<in> set (yields (E @ c)). Close (stream_of earlier) \<in> set (E @ c)"
      using inv closed c by (auto simp: turn_inv_def)
    have "closes_before_yields ((E @ c) @ [Yield seg])"
      by (rule closes_before_yields_snoc [OF 1 2])
    then have "closes_before_yields (((E @ c) @ [Yield seg]) @ r)"
      using r by (rule closes_before_yields_no_yield)
    then show ?thesis by (simp add: e)
  qed
  show ?thesis
    unfolding turn_inv_def using wf below cby old new by auto
qed

lemma step_okI_no_yield:
  assumes "yields e = []"
    and "\<And>s. s \<in> open_streams p \<Longrightarrow> Close s \<in> set e \<or> s \<in> open_streams p'"
  shows "step_ok p e p'"
  using assms by (simp add: step_ok_def)

lemma step_okI_yield_first:
  assumes "open_streams p = {}" and "yields r = []"
    and "Close (stream_of seg) \<in> set r \<or> stream_of seg \<in> open_streams p'"
  shows "step_ok p (Yield seg # r) p'"
  unfolding step_ok_def
proof (intro conjI)
  show "yields (Yield seg # r) = [] \<or>
    (\<exists>c seg' r'. Yield seg # r = c @ Yield seg' # r' \<and> yields c = [] \<and> yields r' = [] \<and>
       (\<forall>s \<in> open_streams p. Close s \<in> set c))"
    using assms(1,2) by (intro disjI2 exI [of _ "[]"] exI [of _ seg] exI [of _ r]) simp
qed (use assms in auto)

lemma pushMarkdown_step_ok:
  assumes "activeBlock p = None"
  shows "step_ok p (fst (pushMarkdown t p)) (snd (pushMarkdown t p))"
proof (cases "markdownStream p")
  case None
  show ?thesis
  proof (cases "t = [] \<or> isWhitespaceOnly t")
    case True
    then show ?thesis
      using None by (auto simp: pushMarkdown_def intro!: step_okI_no_yield)
  next
    case False
    then have "pushMarkdown t p =
        ([Yield (MarkdownSegment (streams_created p)), Push (streams_created p) t],
         p\<lparr>markdownStream := Some (streams_created p),
           streams_created := streams_created p + 1\<rparr>)"
      using None by (simp add: pushMarkdown_def ensureMarkdownStream_def Let_def)
    then show ?thesis
      using None assms
      by (auto simp: open_streams_def intro!: step_okI_yield_first)
  qed
next
  case (Some m)
  then have "pushMarkdown t p = (if t = [] then ([], p) else ([Push m t], p))"
    by (simp add: pushMarkdown_def ensureMarkdownStream_def)
  then show ?thesis
    by (auto intro!: step_okI_no_yield)
qed

lemma pushMarkdown_close_step_ok:
  assumes "activeBlock p = None"
  shows "step_ok p
           (fst (pushMarkdown t p) @ fst (closeMarkdownStream (snd (pushMarkdown t p))))
           (snd (closeMarkdownStream (snd (pushMarkdown t p))))"
proof (cases "markdownStream p")
  case None
  show ?thesis
  proof (cases "t = [] \<or> isWhitespaceOnly t")
    case True
    then show ?thesis
      using None
      by (auto simp: pushMarkdown_def closeMarkdownStream_def open_streams_def
          intro!: step_okI_no_yield)
  next
    case False
    then have "pushMarkdown t p =
        ([Yield (MarkdownSegment (streams_created p)), Push (streams_created p) t],
         p\<lparr>markdownStream := Some (streams_created p),
           streams_created := streams_created p + 1\<rparr>)"
      using None by (simp add: pushMarkdown_def ensureMarkdownStream_def Let_def)
    then show ?thesis
      using None assms
      by (auto simp: open_streams_def closeMarkdownStream_def intro!: step_okI_yield_first)
  qed
next
  case (Some m)
  then have "pushMarkdown t p = (if t = [] then ([], p) else ([Push m t], p))"
    by (simp add: pushMarkdown_def ensureMarkdownStream_def)
  then show ?thesis
    using Some by (auto simp: closeMarkdownStream_def open_streams_def intro!: step_okI_no_yield)
qed

lemma closeMarkdownStream_step_ok:
  assumes "activeBlock p = None"
  shows "step_ok p (fst (closeMarkdownStream p)) (snd (closeMarkdownStream p))"
  using assms
  by (auto simp: closeMarkdownStream_def open_streams_def intro!: step_okI_no_yield
      split: option.splits)

lemma step_ok_buffer [simp]: "step_ok (p\<lparr>buffer := b\<rparr>) e p' = step_ok p e p'"
  by (simp add: step_ok_def open_streams_def)

lemma flushMarkdown_step_ok:
  assumes "activeBlock p = None"
  shows "step_ok p (fst (flushMarkdown final p)) (snd (flushMarkdown final p))"
proof (cases final)
  case False
  then show ?thesis
    using pushMarkdown_step_ok [of "p\<lparr>buffer := b\<rparr>" for b] assms
    by (simp add: flushMarkdown_not_final Let_def)
next
  case True
  show ?thesis
  proof (cases "buffer p = []")
    case e: True
    then show ?thesis
      using True closeMarkdownStream_step_ok [OF assms] by (simp add: flushMarkdown_final)
  next
    case False
    have a: "activeBlock (p\<lparr>buffer := []\<rparr>) = None" using assms by simp
    show ?thesis
      using True False pushMarkdown_close_step_ok [OF a, of "buffer p"]
      by (simp add: flushMarkdown_final)
  qed
qed

lemma consumeAgentRunBlock_markdown:
  assumes "consumeAgentRunBlock i s hs l final p = (e, p', c)"
  shows "markdownStream p' = markdownStream p"
  using assms
  by (auto simp: consumeAgentRunBlock_def closeAgentRunBlock_def Let_def case_prod_beta
      split: option.splits if_splits)

lemma consumeAgentDataBlock_markdown:
  assumes "consumeAgentDataBlock s final p = (e, p', c)"
  shows "markdownStream p' = markdownStream p"
    and "activeBlock p' = activeBlock p \<or> Close s \<in> set e"
  using assms
  by (auto simp: consumeAgentDataBlock_def Let_def case_prod_beta split: option.splits if_splits)

lemma consumePassthroughBlock_markdown:
  assumes "consumePassthroughBlock s final p = (e, p', c)"
  shows "markdownStream p' = markdownStream p"
  using assms
  by (auto simp: consumePassthroughBlock_def Let_def case_prod_beta split: option.splits if_splits)

lemma consumeActiveBlock_open:
  assumes a: "activeBlock p = Some block" and pt: "passthrough_ok p"
    and eq: "consumeActiveBlock block final p = (e, p', c)"
  shows "yields e = []"
    and "s \<in> open_streams p \<Longrightarrow> Close s \<in> set e \<or> s \<in> open_streams p'"
    and "passthrough_ok p'"
proof -
  have "yields e = [] \<and> (s \<in> open_streams p \<longrightarrow> Close s \<in> set e \<or> s \<in> open_streams p') \<and>
        passthrough_ok p'"
  proof (cases block)
    case (agent_run_block i b hs l)
    then have eq': "consumeAgentRunBlock i b hs l final p = (e, p', c)"
      using eq by (simp add: consumeActiveBlock_def)
    note post = consumeAgentRunBlock_post [OF eq'] consumeAgentRunBlock_markdown [OF eq']
    show ?thesis
      using post(1,2,3,4) a agent_run_block
      by (auto simp: open_streams_def passthrough_ok_def split: option.splits)
  next
    case (agent_data_block b)
    then have eq': "consumeAgentDataBlock b final p = (e, p', c)"
      using eq by (simp add: consumeActiveBlock_def)
    note post = consumeAgentDataBlock_post [OF eq'] consumeAgentDataBlock_markdown [OF eq']
    show ?thesis
      using post a agent_data_block
      by (auto simp: open_streams_def passthrough_ok_def split: option.splits)
  next
    case (passthrough_block b)
    then have eq': "consumePassthroughBlock b final p = (e, p', c)"
      using eq by (simp add: consumeActiveBlock_def)
    note post = consumePassthroughBlock_post [OF eq'] consumePassthroughBlock_markdown [OF eq']
    show ?thesis
      using post a pt passthrough_block
      by (auto simp: open_streams_def passthrough_ok_def split: option.splits)
  qed
  then show "yields e = []"
    and "s \<in> open_streams p \<Longrightarrow> Close s \<in> set e \<or> s \<in> open_streams p'"
    and "passthrough_ok p'"
    by simp_all
qed

lemma consumeActiveBlock_step_ok:
  assumes "activeBlock p = Some block" and "passthrough_ok p"
  shows "step_ok p (fst (consumeActiveBlock block final p))
           (fst (snd (consumeActiveBlock block final p)))"
proof -
  obtain e p' c where eq: "consumeActiveBlock block final p = (e, p', c)"
    by (cases "consumeActiveBlock block final p") auto
  show ?thesis
    using consumeActiveBlock_open (1,2) [OF assms eq]
    by (simp add: eq step_okI_no_yield)
qed

lemma consumeActiveBlock_passthrough_ok:
  assumes "activeBlock p = Some block" and "passthrough_ok p"
  shows "passthrough_ok (fst (snd (consumeActiveBlock block final p)))"
proof -
  obtain e p' c where eq: "consumeActiveBlock block final p = (e, p', c)"
    by (cases "consumeActiveBlock block final p") auto
  show ?thesis
    using consumeActiveBlock_open (3) [OF assms eq] by (simp add: eq)
qed

lemma header_step_ok:
  assumes "activeBlock p = None"
  shows "step_ok p (fst (header_step h p)) (fst (snd (header_step h p)))"
    and "passthrough_ok (fst (snd (header_step h p)))"
proof -
  define rawHeader where "rawHeader = stripCarriageReturn (take (h - 3) (drop 3 (buffer p)))"
  define p1 where "p1 = p\<lparr>buffer := drop (Suc h) (buffer p)\<rparr>"
  have a1: "activeBlock p1 = None" "markdownStream p1 = markdownStream p"
    "streams_created p1 = streams_created p"
    using assms by (simp_all add: p1_def)
  have o1: "open_streams p1 = open_streams p" by (simp add: open_streams_def p1_def)
  have "step_ok p (fst (header_step h p)) (fst (snd (header_step h p))) \<and>
        passthrough_ok (fst (snd (header_step h p)))"
  proof (cases "parseHeader (trim rawHeader) rawHeader")
    case None
    show ?thesis
    proof (cases "markdownStream p")
      case no: None
      then have "ensureMarkdownStream p1 =
          (streams_created p, [Yield (MarkdownSegment (streams_created p))],
           p1\<lparr>markdownStream := Some (streams_created p),
              streams_created := streams_created p + 1\<rparr>)"
        using a1 by (simp add: ensureMarkdownStream_def Let_def)
      then show ?thesis
        using None no assms
        by (auto simp: header_step_def Let_def rawHeader_def [symmetric] p1_def [symmetric]
              open_streams_def passthrough_ok_def intro!: step_okI_yield_first)
    next
      case (Some m)
      then have "ensureMarkdownStream p1 = (m, [], p1)"
        using a1 by (simp add: ensureMarkdownStream_def)
      then show ?thesis
        using None Some assms a1
        by (auto simp: header_step_def Let_def rawHeader_def [symmetric] p1_def [symmetric]
              open_streams_def passthrough_ok_def intro!: step_okI_no_yield)
    qed
  next
    case (Some blockInfo)
    define c where "c = fst (closeMarkdownStream p1)"
    define p2 where "p2 = snd (closeMarkdownStream p1)"
    have c: "yields c = []" "\<forall>s \<in> open_streams p. Close s \<in> set c"
      using assms a1
      by (auto simp: c_def closeMarkdownStream_def open_streams_def split: option.splits)
    have p2: "markdownStream p2 = None" "activeBlock p2 = None"
      using a1 by (simp_all add: p2_def)
    define seg where "seg = fst (openBlock blockInfo p2)"
    define p3 where "p3 = snd (openBlock blockInfo p2)"
    have p3: "stream_of seg \<in> open_streams p3" "passthrough_ok p3"
      using p2
      by (auto simp: seg_def p3_def openBlock_def Let_def open_streams_def passthrough_ok_def
          split: BlockInfo.splits)
    have hs: "header_step h p = (c @ [Yield seg], p3, True)"
      using Some
      by (simp add: header_step_def Let_def rawHeader_def [symmetric] p1_def [symmetric]
            c_def p2_def seg_def p3_def)
    have "step_ok p (c @ [Yield seg]) p3"
      unfolding step_ok_def
    proof (intro conjI)
      show "yields (c @ [Yield seg]) = [] \<or>
        (\<exists>c' seg' r. c @ [Yield seg] = c' @ Yield seg' # r \<and> yields c' = [] \<and> yields r = [] \<and>
           (\<forall>s \<in> open_streams p. Close s \<in> set c'))"
        using c by (intro disjI2 exI [of _ c] exI [of _ seg] exI [of _ "[]"]) simp
    qed (use c p3 in auto)
    then show ?thesis using hs p3(2) by simp
  qed
  then show "step_ok p (fst (header_step h p)) (fst (snd (header_step h p)))"
    and "passthrough_ok (fst (snd (header_step h p)))"
    by simp_all
qed

lemma passthrough_ok_idle: "activeBlock p = None \<Longrightarrow> passthrough_ok p"
  by (simp add: passthrough_ok_def)

lemma step_ok_buffer_after [simp]: "step_ok p e (p'\<lparr>buffer := b\<rparr>) = step_ok p e p'"
  by (simp add: step_ok_def open_streams_def)

lemma passthrough_ok_buffer [simp]: "passthrough_ok (p\<lparr>buffer := b\<rparr>) = passthrough_ok p"
  by (simp add: passthrough_ok_def)

lemma pushMarkdown_close_idle:
  "activeBlock p = None \<Longrightarrow>
   activeBlock (snd (closeMarkdownStream (snd (pushMarkdown t p)))) = None"
  by (simp add: closeMarkdownStream_def pushMarkdown_def ensureMarkdownStream_def Let_def
        case_prod_beta split: option.splits)

lemma drain_step_ok:
  assumes "passthrough_ok p"
  shows "step_ok p (fst (drain_step final p)) (fst (snd (drain_step final p))) \<and>
         passthrough_ok (fst (snd (drain_step final p)))"
proof (cases "activeBlock p")
  case (Some block)
  then show ?thesis
    using consumeActiveBlock_step_ok [OF Some assms, of final]
      consumeActiveBlock_passthrough_ok [OF Some assms, of final]
    by (simp add: drain_step_active)
next
  case None
  show ?thesis
  proof (cases "indexOf (buffer p) FENCE")
    case no: None
    then show ?thesis
      using None flushMarkdown_step_ok [OF None, of final]
      by (simp add: drain_step_no_fence flushMarkdown_no_code passthrough_ok_idle)
  next
    case (Some k)
    show ?thesis
    proof (cases "k > 0")
      case True
      have a: "activeBlock (p\<lparr>buffer := drop k (buffer p)\<rparr>) = None" using None by simp
      show ?thesis
        using None Some True pushMarkdown_step_ok [OF a, of "take k (buffer p)"]
        by (simp add: drain_step_fence_later passthrough_ok_idle)
    next
      case False
      then have k: "indexOf (buffer p) FENCE = Some 0" using Some by simp
      show ?thesis
      proof (cases "indexOfFrom (buffer p) [10] 3")
        case nl: None
        have "step_ok p [] p" by (auto intro!: step_okI_no_yield)
        then show ?thesis
          using None k nl pushMarkdown_close_step_ok [OF None, of "buffer p"] assms
            pushMarkdown_close_idle [OF None, of "buffer p"]
          by (simp add: drain_step_fence_open closeMarkdownStream_buffer passthrough_ok_idle)
      next
        case (Some h)
        then show ?thesis
          using None k header_step_ok [OF None, of h] by (simp add: drain_step_header)
      qed
    qed
  qed
qed

lemma turn_inv_drain_step:
  assumes "streams_inv E p"
  shows "streams_inv (E @ fst (drain_step final p)) (fst (snd (drain_step final p)))"
proof -
  have wf: "parser_wf p" and below: "streams_below (streams_created p) E"
    using assms by (simp_all add: streams_inv_def turn_inv_def)
  note w = drain_step_wf [OF wf, of final]
  have below': "streams_below (streams_created (fst (snd (drain_step final p))))
                  (E @ fst (drain_step final p))"
    using below w by (auto intro: streams_below_mono)
  have inv: "turn_inv E p" and pt: "passthrough_ok p"
    using assms by (simp_all add: streams_inv_def)
  note ok = drain_step_ok [OF pt, of final]
  have "turn_inv (E @ fst (drain_step final p)) (fst (snd (drain_step final p)))"
    by (rule turn_inv_step [OF inv conjunct1 [OF ok] conjunct1 [OF w] below'])
  then show ?thesis
    using conjunct2 [OF ok] unfolding streams_inv_def by (rule conjI)
qed

lemma turn_inv_drain:
  "streams_inv E p \<Longrightarrow> streams_inv (E @ fst (drain final p)) (snd (drain final p))"
proof (induction p arbitrary: E rule: drain_induct [where final = final])
  case (step p)
  note st = turn_inv_drain_step [OF step.prems, of final]
  show ?case
  proof (cases "snd (snd (drain_step final p))")
    case False
    then show ?thesis using st by (simp add: drain_unfold [of final p])
  next
    case True
    then show ?thesis
      using step.IH [OF True st] by (simp add: drain_unfold [of final p])
  qed
qed

lemma turn_inv_buffer [simp]: "streams_inv E (p\<lparr>buffer := b\<rparr>) = streams_inv E p"
  by (simp add: streams_inv_def turn_inv_def passthrough_ok_def open_streams_def)

lemma turn_inv_parse_chunks:
  "streams_inv E p \<Longrightarrow> streams_inv (E @ fst (parse_chunks chunks p)) (snd (parse_chunks chunks p))"
proof (induction chunks arbitrary: E p)
  case Nil
  then show ?case by simp
next
  case (Cons chunk chunks)
  have "streams_inv E (append_text chunk p)"
    using Cons.prems by (simp add: append_text_def)
  then have "streams_inv (E @ fst (drain False (append_text chunk p)))
                (snd (drain False (append_text chunk p)))"
    by (rule turn_inv_drain)
  then have "streams_inv ((E @ fst (drain False (append_text chunk p))) @
                  fst (parse_chunks chunks (snd (drain False (append_text chunk p)))))
               (snd (parse_chunks chunks (snd (drain False (append_text chunk p)))))"
    by (rule Cons.IH)
  then show ?case
    by (simp add: case_prod_beta)
qed

lemma consumeActiveBlock_final_continues:
  "snd (snd (consumeActiveBlock block True p))"
  by (cases block)
     (simp_all add: consumeActiveBlock_def consumeAgentRunBlock_def consumeAgentDataBlock_def
        consumePassthroughBlock_def Let_def case_prod_beta split: option.splits)

lemma closeMarkdownStream_no_markdown [simp]:
  "markdownStream (snd (closeMarkdownStream p)) = None"
  by (simp add: closeMarkdownStream_def split: option.splits)

lemma drain_step_final_no_markdown:
  assumes "\<not> snd (snd (drain_step True p))"
  shows "markdownStream (fst (snd (drain_step True p))) = None"
proof (cases "activeBlock p")
  case (Some block)
  then show ?thesis
    using assms consumeActiveBlock_final_continues [of block p] by (simp add: drain_step_active)
next
  case None
  show ?thesis
  proof (cases "indexOf (buffer p) FENCE")
    case no: None
    show ?thesis
      using None no
      by (simp add: drain_step_no_fence flushMarkdown_final case_prod_beta)
  next
    case (Some k)
    show ?thesis
    proof (cases "k > 0")
      case True
      then show ?thesis using assms None Some by (simp add: drain_step_fence_later)
    next
      case False
      then have k: "indexOf (buffer p) FENCE = Some 0" using Some by simp
      show ?thesis
      proof (cases "indexOfFrom (buffer p) [10] 3")
        case nl: None
        then show ?thesis using None k by (simp add: drain_step_fence_open)
      next
        case (Some h)
        then show ?thesis
          using assms None k
          by (auto simp: drain_step_header header_step_def Let_def case_prod_beta
              split: option.splits)
      qed
    qed
  qed
qed

lemma drain_final_no_markdown: "markdownStream (snd (drain True p)) = None"
proof (induction p rule: drain_induct [where final = True])
  case (step p)
  show ?case
  proof (cases "snd (snd (drain_step True p))")
    case False
    then show ?thesis
      using drain_step_final_no_markdown [OF False] by (simp add: drain_unfold [of True p])
  next
    case True
    then show ?thesis using step.IH by (simp add: drain_unfold [of True p])
  qed
qed

text \<open>
  For every sequence of chunks: each segment is yielded after the streams of the earlier
  segments have been closed, and at the end of the parse every yielded stream is closed.
\<close>

lemma parse_streams_closed:
  "closes_before_yields (parse chunks) \<and>
   (\<forall>seg \<in> set (yields (parse chunks)). Close (stream_of seg) \<in> set (parse chunks))"
proof -
  have 0: "streams_inv [] new_parser"
    by (simp add: streams_inv_def turn_inv_def new_parser_def parser_wf_def
          closes_before_yields_def passthrough_ok_def)
  have 1: "streams_inv (fst (parse_chunks chunks new_parser)) (snd (parse_chunks chunks new_parser))"
    using turn_inv_parse_chunks [OF 0, of chunks] by simp
  define q where "q = snd (drain True (snd (parse_chunks chunks new_parser)))"
  have 2: "streams_inv (parse chunks) q"
    using turn_inv_drain [OF 1, of True] by (simp add: parse_def case_prod_beta q_def)
  have "open_streams q = {}"
    using drain_final_idle drain_final_no_markdown by (simp add: open_streams_def q_def)
  then show ?thesis
    using 2 by (auto simp: streams_inv_def turn_inv_def)
qed

section \<open>A turn settles when nothing stops it and its statements settle\<close>

lemma stream_closed_iff: "stream_closed seen s \<longleftrightarrow> Close s \<in> set seen"
  by (simp add: stream_closed_def)

lemma events_until_yield_decomp:
  "j < length (yields E) \<Longrightarrow>
   \<exists>A B. E = A @ Yield (yields E ! j) # B \<and> yields A = take j (yields E) \<and>
          events_until_yield j E = A @ [Yield (yields E ! j)]"
proof (induction j E rule: events_until_yield.induct)
  case (1 k)
  then show ?case by simp
next
  case (2 k seg es)
  show ?case
  proof (cases k)
    case 0
    then show ?thesis by (intro exI [of _ "[]"] exI [of _ es]) simp
  next
    case (Suc k')
    then have "k' < length (yields es)" using 2(2) by simp
    from 2(1) [OF Suc this] obtain A B where
      ab: "es = A @ Yield (yields es ! k') # B" "yields A = take k' (yields es)"
          "events_until_yield k' es = A @ [Yield (yields es ! k')]"
      by blast
    show ?thesis
      apply (rule exI [of _ "Yield seg # A"], rule exI [of _ B])
      using ab Suc by simp
  qed
next
  case (3 k s t es)
  then have "k < length (yields es)" by simp
  from 3(1) [OF this] obtain A B where
    ab: "es = A @ Yield (yields es ! k) # B" "yields A = take k (yields es)"
        "events_until_yield k es = A @ [Yield (yields es ! k)]"
    by blast
  show ?case
    apply (rule exI [of _ "Push s t # A"], rule exI [of _ B])
    using ab by simp
next
  case (4 k s es)
  then have "k < length (yields es)" by simp
  from 4(1) [OF this] obtain A B where
    ab: "es = A @ Yield (yields es ! k) # B" "yields A = take k (yields es)"
        "events_until_yield k es = A @ [Yield (yields es ! k)]"
    by blast
  show ?case
    apply (rule exI [of _ "Close s # A"], rule exI [of _ B])
    using ab by simp
qed

text \<open>
  At its segment number \<open>j\<close> the loop finds the streams of the earlier segments closed.
\<close>

lemma earlier_streams_closed:
  assumes "closes_before_yields E" and "j < length (yields E)"
    and "s \<in> stream_of ` set (take j (yields E))"
  shows "stream_closed (events_until_yield j E) s"
proof -
  obtain A B where ab: "E = A @ Yield (yields E ! j) # B" "yields A = take j (yields E)"
      "events_until_yield j E = A @ [Yield (yields E ! j)]"
    using events_until_yield_decomp [OF assms(2)] by blast
  have "\<forall>earlier \<in> set (yields A). Close (stream_of earlier) \<in> set A"
    using assms(1) ab(1) unfolding closes_before_yields_def by blast
  then show ?thesis
    using assms(3) ab(2,3) by (auto simp: stream_closed_iff)
qed

lemma await_execution_settles:
  assumes "\<forall>i. statements_settle inp i"
    and "\<forall>s \<in> pending st. stream_closed seen s"
  shows "await_execution eng inp seen st \<noteq> Blocks"
    and "await_execution eng inp seen st = Returns st1 \<Longrightarrow>
         pendingStreams st1 = pendingStreams st \<and> pendingExecution st1 = None"
  using assms
  by (auto simp: await_execution_def pending_def split: option.splits sum.splits prod.splits)

lemma allSettled_iff: "allSettled seen xs \<longleftrightarrow> (\<forall>s \<in> set xs. stream_closed seen s)"
  by (simp add: allSettled_def list_all_iff)

lemma on_segment_settles:
  assumes "\<forall>i. statements_settle inp i"
    and "\<forall>s \<in> pending st. stream_closed seen s"
  shows "on_segment eng inp seen segment st \<noteq> Blocks"
    and "on_segment eng inp seen segment st = Returns st1 \<Longrightarrow>
         pending st1 \<subseteq> insert (stream_of segment) (pending st)"
proof -
  have "on_segment eng inp seen segment st \<noteq> Blocks \<and>
        (on_segment eng inp seen segment st = Returns st1 \<longrightarrow>
         pending st1 \<subseteq> insert (stream_of segment) (pending st))"
  proof (cases segment)
    case (MarkdownSegment tokens)
    then show ?thesis by (auto simp: on_segment_def pending_def)
  next
    case (AgentDataSegment index dataId jsonTokens)
    then show ?thesis by (auto simp: on_segment_def pending_def)
  next
    case (AgentRunSegment index sourceTokens)
    show ?thesis
    proof (cases "await_execution eng inp seen st")
      case (Returns st')
      note post = await_execution_settles(2) [OF assms Returns]
      have "allSettled seen (pendingStreams st')"
        using post assms(2) by (simp add: allSettled_iff pending_def)
      then show ?thesis
        using AgentRunSegment Returns post
        by (auto simp: on_segment_def pending_def)
    next
      case (Throws e)
      then show ?thesis using AgentRunSegment by (simp add: on_segment_def)
    next
      case Blocks
      then show ?thesis using await_execution_settles(1) [OF assms] by simp
    qed
  qed
  then show "on_segment eng inp seen segment st \<noteq> Blocks"
    and "on_segment eng inp seen segment st = Returns st1 \<Longrightarrow>
         pending st1 \<subseteq> insert (stream_of segment) (pending st)"
    by simp_all
qed

lemma segment_loop_settles:
  assumes "stop_after inp = None" and "\<forall>i. statements_settle inp i"
    and "closes_before_yields E"
  shows "rest = drop j (yields E) \<Longrightarrow> pending st \<subseteq> stream_of ` set (take j (yields E)) \<Longrightarrow>
         segment_loop eng inp E j rest st \<noteq> Blocks \<and>
         (\<forall>seen st1. segment_loop eng inp E j rest st = Returns (seen, st1) \<longrightarrow>
            seen = E \<and> pending st1 \<subseteq> stream_of ` set (yields E))"
proof (induction rest arbitrary: j st)
  case Nil
  then show ?case by (auto dest: in_set_takeD)
next
  case (Cons segment rest)
  have "drop j (yields E) \<noteq> []" using Cons.prems(1) by auto
  then have j: "j < length (yields E)" by simp
  have "segment # rest = yields E ! j # drop (Suc j) (yields E)"
    using Cons.prems(1) Cons_nth_drop_Suc [OF j] by simp
  then have seg: "segment = yields E ! j" and rest: "rest = drop (j + 1) (yields E)"
    by simp_all
  let ?seen = "events_until_yield j E"
  have closed: "\<forall>s \<in> pending st. stream_closed ?seen s"
    using earlier_streams_closed [OF assms(3) j] Cons.prems(2) by blast
  note os = on_segment_settles [OF assms(2) closed, of eng segment]
  have ns: "\<not> stop_seen inp j" using assms(1) by (simp add: stop_seen_def)
  show ?case
  proof (cases "on_segment eng inp ?seen segment st")
    case (Returns st1)
    have "pending st1 \<subseteq> insert (stream_of segment) (pending st)"
      using os(2) [OF Returns] .
    also have "\<dots> \<subseteq> stream_of ` set (take (j + 1) (yields E))"
      using Cons.prems(2) j seg by (auto simp: take_Suc_conv_app_nth)
    finally have p1: "pending st1 \<subseteq> stream_of ` set (take (j + 1) (yields E))" .
    show ?thesis
      using Cons.IH [OF rest p1] Returns ns by simp
  next
    case (Throws e)
    then show ?thesis by simp
  next
    case Blocks
    then show ?thesis using os(1) by simp
  qed
qed

text \<open>
  A turn in which \<open>stop()\<close> is not called and every awaited statement settles does not
  wait for ever: each promise it awaits reads a stream that the parser has closed by then.
\<close>

lemma consumeAssistantStream_settles:
  assumes "stop_after inp = None" and "\<forall>i. statements_settle inp i"
  shows "\<not> blocks (consumeAssistantStream eng inp ex)"
proof -
  define E where "E = parse (model_chunks inp)"
  define st0 where "st0 = \<lparr>turn_transcript = \<lparr>logs = None, error = None\<rparr>, pendingStreams = [],
                 pendingExecution = None, turn_executor = ex\<rparr>"
  have cby: "closes_before_yields E"
    and closed: "\<forall>seg \<in> set (yields E). Close (stream_of seg) \<in> set E"
    using parse_streams_closed [of "model_chunks inp"] by (simp_all add: E_def)
  have p0: "pending st0 \<subseteq> stream_of ` set (take 0 (yields E))"
    by (simp add: pending_def st0_def)
  note sl = segment_loop_settles [OF assms cby _ p0, of "yields E" eng, simplified]
  have eq: "consumeAssistantStream eng inp ex =
      (case segment_loop eng inp E 0 (yields E) st0 of
           Blocks \<Rightarrow> Blocks
         | Throws e \<Rightarrow> Throws e
         | Returns (seen, st1) \<Rightarrow>
             (case await_execution eng inp seen st1 of
                Blocks \<Rightarrow> Blocks
              | Throws e \<Rightarrow> Throws e
              | Returns st2 \<Rightarrow>
                  if pendingStreams st2 \<noteq> [] \<and> \<not> allSettled seen (pendingStreams st2)
                  then Blocks
                  else Returns (turn_transcript st2, turn_executor st2)))"
    by (simp add: consumeAssistantStream_def Let_def E_def st0_def)
  show ?thesis
  proof (cases "segment_loop eng inp E 0 (yields E) st0")
    case (Returns r)
    obtain seen st1 where r: "r = (seen, st1)" by (cases r) auto
    have seen: "seen = E" and p1: "pending st1 \<subseteq> stream_of ` set (yields E)"
      using sl Returns r by simp_all
    have c1: "\<forall>s \<in> pending st1. stream_closed E s"
      using p1 closed by (auto simp: stream_closed_iff)
    show ?thesis
    proof (cases "await_execution eng inp E st1")
      case (Returns st2)
      note post = await_execution_settles(2) [OF assms(2) c1 Returns]
      have "allSettled E (pendingStreams st2)"
        using post c1 by (simp add: allSettled_iff pending_def)
      then show ?thesis
        using \<open>segment_loop eng inp E 0 (yields E) st0 = Returns r\<close> r seen Returns
        by (simp add: eq blocks_def)
    next
      case (Throws e)
      then show ?thesis
        using \<open>segment_loop eng inp E 0 (yields E) st0 = Returns r\<close> r seen
        by (simp add: eq blocks_def)
    next
      case Blocks
      then show ?thesis using await_execution_settles(1) [OF assms(2) c1] by simp
    qed
  next
    case (Throws e)
    then show ?thesis by (simp add: eq blocks_def)
  next
    case Blocks
    then show ?thesis using sl by simp
  qed
qed

section \<open>Properties of the interaction loop\<close>

lemma sendTraceIf_calls [simp]: "calls (sendTraceIf c x rt) = calls rt"
  by (simp add: sendTraceIf_def split: option.splits)

lemma sendTraceIf_running [simp]: "running (sendTraceIf c x rt) = running rt"
  by (simp add: sendTraceIf_def split: option.splits)

text \<open>
  The loop calls the model at most \<open>maxTurns\<close> times, however it is left, and does not
  touch \<open>running\<close>.
\<close>

lemma turn_loop_calls_le:
  "turn < maxTurns \<Longrightarrow>
   length (calls (snd (turn_loop eng env q turn t rt ex))) \<le> length (calls rt) + (maxTurns - turn)
   \<and> running (snd (turn_loop eng env q turn t rt ex)) = running rt"
proof (induction eng env q turn t rt ex rule: turn_loop.induct)
  case (1 eng env userQuery turn transcript rt ex)
  show ?case
  proof (cases "stopped rt")
    case True
    then show ?thesis by (subst (1 2) turn_loop.simps) simp
  next
    case False
    define call where "call = next_call rt userQuery turn transcript"
    define inp where "inp = env turn call"
    define rt1 where
      "rt1 = rt\<lparr>calls := calls rt @ [call], stopped := stop_after inp \<noteq> None\<rparr>"
    have len1: "length (calls rt1) = length (calls rt) + 1" "running rt1 = running rt"
      by (simp_all add: rt1_def)
    show ?thesis
    proof (cases "consumeAssistantStream eng inp ex")
      case Blocks
      have "turn_loop eng env userQuery turn transcript rt ex = (Blocks, rt1)"
        using False Blocks
        by (subst turn_loop.simps) (simp add: Let_def call_def inp_def rt1_def)
      then show ?thesis using len1 "1.prems" by simp
    next
      case (Throws e)
      have "turn_loop eng env userQuery turn transcript rt ex = (Throws e, rt1)"
        using False Throws
        by (subst turn_loop.simps) (simp add: Let_def call_def inp_def rt1_def)
      then show ?thesis using len1 "1.prems" by simp
    next
      case (Returns x)
      obtain t ex1 where x: "x = (t, ex1)" by (cases x)
      define rt2 where
        "rt2 = sendTraceIf exec_result (logs t) (sendTraceIf exec_error (error t) rt1)"
      have len2: "length (calls rt2) = length (calls rt) + 1" "running rt2 = running rt"
        using len1 by (simp_all add: rt2_def)
      show ?thesis
      proof (cases "continue_after turn t")
        case True
        have eq: "turn_loop eng env userQuery turn transcript rt ex =
                    turn_loop eng env userQuery (turn + 1) t rt2 ex1"
          using False Returns x True
          by (subst turn_loop.simps) (simp add: Let_def call_def inp_def rt1_def rt2_def)
        have lt: "turn + 1 < maxTurns"
          using True by (simp add: continue_after_def)
        have "length (calls (snd (turn_loop eng env userQuery (turn + 1) t rt2 ex1)))
                \<le> length (calls rt2) + (maxTurns - (turn + 1)) \<and>
              running (snd (turn_loop eng env userQuery (turn + 1) t rt2 ex1)) = running rt2"
          using "1.IH" [OF False call_def inp_def rt1_def Returns x [symmetric] rt2_def True lt] .
        moreover have "length (calls rt2) + (maxTurns - (turn + 1)) =
                       length (calls rt) + (maxTurns - turn)"
          using len2(1) lt by linarith
        ultimately show ?thesis
          using eq len2(2) by simp
      next
        case no_more: False
        have "turn_loop eng env userQuery turn transcript rt ex = (Returns ex1, rt2)"
          using False Returns x no_more
          by (subst turn_loop.simps) (simp add: Let_def call_def inp_def rt1_def rt2_def)
        then show ?thesis
          using len2 "1.prems" by simp
      qed
    qed
  qed
qed

lemma newInteraction_calls_le:
  "length (calls (snd (newInteraction eng env iid q rt ex))) \<le> length (calls rt) + maxTurns"
proof (cases "running rt")
  case True
  then show ?thesis by (simp add: newInteraction_def)
next
  case False
  define rt0 where
    "rt0 = sendTraceIf user (Some q) (rt\<lparr>running := True, stopped := False\<rparr>)"
  have "length (calls (snd (turn_loop eng env q 0 \<lparr>logs = None, error = None\<rparr> rt0 ex)))
          \<le> length (calls rt0) + (maxTurns - 0)"
    using turn_loop_calls_le [of 0 eng env q _ rt0 ex] by (simp add: maxTurns_def)
  moreover have "calls rt0 = calls rt"
    by (simp add: rt0_def)
  ultimately show ?thesis
    using False
    by (auto simp: newInteraction_def Let_def rt0_def split: prod.splits outcome.splits)
qed

text \<open>
  \<open>running\<close> is reset exactly when the interaction returns or throws: an interaction
  that waits for a turn for ever keeps it set.
\<close>

lemma newInteraction_running:
  assumes "\<not> running rt"
  shows "running (snd (newInteraction eng env iid q rt ex)) =
         blocks (fst (newInteraction eng env iid q rt ex))"
proof -
  define rt0 where
    "rt0 = sendTraceIf user (Some q) (rt\<lparr>running := True, stopped := False\<rparr>)"
  have "running (snd (turn_loop eng env q 0 \<lparr>logs = None, error = None\<rparr> rt0 ex)) = running rt0"
    using turn_loop_calls_le [of 0 eng env q _ rt0 ex] by (simp add: maxTurns_def)
  moreover have "running rt0" by (simp add: rt0_def)
  ultimately show ?thesis
    using assms
    by (auto simp: newInteraction_def Let_def rt0_def blocks_def
        split: prod.splits outcome.splits)
qed

text \<open>
  When \<open>stop()\<close> is not called during a turn and every awaited statement settles, no
  turn waits for ever, and the interaction returns or throws.
\<close>

lemma turn_loop_settles:
  "\<forall>turn call. stop_after (env turn call) = None \<and> (\<forall>i. statements_settle (env turn call) i) \<Longrightarrow>
   \<not> blocks (fst (turn_loop eng env q turn t rt ex))"
proof (induction eng env q turn t rt ex rule: turn_loop.induct)
  case (1 eng env userQuery turn transcript rt ex)
  show ?case
  proof (cases "stopped rt")
    case True
    then show ?thesis by (subst turn_loop.simps) (simp add: blocks_def)
  next
    case False
    define call where "call = next_call rt userQuery turn transcript"
    define inp where "inp = env turn call"
    define rt1 where
      "rt1 = rt\<lparr>calls := calls rt @ [call], stopped := stop_after inp \<noteq> None\<rparr>"
    have nb: "\<not> blocks (consumeAssistantStream eng inp ex)"
      using "1.prems" by (intro consumeAssistantStream_settles) (simp_all add: inp_def)
    show ?thesis
    proof (cases "consumeAssistantStream eng inp ex")
      case Blocks
      then show ?thesis using nb by (simp add: blocks_def)
    next
      case (Throws e)
      have "turn_loop eng env userQuery turn transcript rt ex = (Throws e, rt1)"
        using False Throws
        by (subst turn_loop.simps) (simp add: Let_def call_def inp_def rt1_def)
      then show ?thesis by (simp add: blocks_def)
    next
      case (Returns x)
      obtain t ex1 where x: "x = (t, ex1)" by (cases x)
      define rt2 where
        "rt2 = sendTraceIf exec_result (logs t) (sendTraceIf exec_error (error t) rt1)"
      show ?thesis
      proof (cases "continue_after turn t")
        case True
        have eq: "turn_loop eng env userQuery turn transcript rt ex =
                    turn_loop eng env userQuery (turn + 1) t rt2 ex1"
          using False Returns x True
          by (subst turn_loop.simps) (simp add: Let_def call_def inp_def rt1_def rt2_def)
        show ?thesis
          unfolding eq
          using "1.IH" [OF False call_def inp_def rt1_def Returns x [symmetric] rt2_def True "1.prems"] .
      next
        case no_more: False
        have "turn_loop eng env userQuery turn transcript rt ex = (Returns ex1, rt2)"
          using False Returns x no_more
          by (subst turn_loop.simps) (simp add: Let_def call_def inp_def rt1_def rt2_def)
        then show ?thesis by (simp add: blocks_def)
      qed
    qed
  qed
qed

lemma newInteraction_settles:
  assumes "\<And>turn call. stop_after (env turn call) = None"
    and "\<And>turn call i. statements_settle (env turn call) i"
  shows "\<not> blocks (fst (newInteraction eng env iid q rt ex))"
proof (cases "running rt")
  case True
  then show ?thesis by (simp add: newInteraction_def blocks_def)
next
  case False
  define rt0 where
    "rt0 = sendTraceIf user (Some q) (rt\<lparr>running := True, stopped := False\<rparr>)"
  have "\<not> blocks (fst (turn_loop eng env q 0 \<lparr>logs = None, error = None\<rparr> rt0 ex))"
    using assms by (intro turn_loop_settles) simp
  then show ?thesis
    using False
    by (auto simp: newInteraction_def Let_def rt0_def blocks_def
        split: prod.splits outcome.splits)
qed

text \<open>
  C2, the divergence. The model's stream is one bounded chunk holding a code block whose
  statement awaits a promise that never settles: the interaction calls the model once
  and never returns, and \<open>running\<close> stays set. The same happens to a stream of one
  word of prose when \<open>stop()\<close> is called before the first test of the flag: the loop is
  left by \<open>break\<close>, the parser is abandoned with the yielded stream open, and
  \<open>sendMarkdown\<close> is awaited for ever. A model whose turns all settle and all have a
  transcript is stopped by the cap after 15 calls.
\<close>

theorem interaction_never_returns:
  "blocks (fst (newInteraction demo_engine pending_env (str ''id'') (str ''hi'')
      idle_runtime fresh_executor)) \<and>
   running (snd (newInteraction demo_engine pending_env (str ''id'') (str ''hi'')
      idle_runtime fresh_executor)) \<and>
   length (calls (snd (newInteraction demo_engine pending_env (str ''id'') (str ''hi'')
      idle_runtime fresh_executor))) = 1 \<and>
   blocks (fst (newInteraction demo_engine stopping_env (str ''id'') (str ''hi'')
      idle_runtime fresh_executor)) \<and>
   running (snd (newInteraction demo_engine stopping_env (str ''id'') (str ''hi'')
      idle_runtime fresh_executor)) \<and>
   returns (fst (newInteraction demo_engine chatty_env (str ''id'') (str ''hi'')
      idle_runtime fresh_executor)) \<and>
   length (calls (snd (newInteraction demo_engine chatty_env (str ''id'') (str ''hi'')
      idle_runtime fresh_executor))) = 15"
  by code_simp

end
